theory Spec2Isabelle
  imports Complex_Main "HOL-Library.Log_Nat"
begin

section \<open>The graph collaborator\<close>

text \<open>
  The clustering module receives a networkx directed graph (a \<open>DiGraph\<close> or a
  \<open>MultiDiGraph\<close>) and uses five of its operations: \<open>G.nodes()\<close>,
  \<open>G.successors(key)\<close>, \<open>G.predecessors(key)\<close>, \<open>G.has_edge(u, v)\<close> and
  \<open>G.number_of_nodes()\<close>.  The graph is modelled by the list \<open>G.nodes()\<close> returns and
  the list of its edges; parallel edges of a multigraph are repeated pairs, and the
  adjacency views list every neighbour once, as networkx does.
\<close>

record 'a graph =
  node_list :: "'a list"
  edges :: "('a \<times> 'a) list"

definition wf_graph :: "'a graph \<Rightarrow> bool" where
  "wf_graph G \<longleftrightarrow>
     distinct (node_list G) \<and>
     (\<forall>e \<in> set (edges G). fst e \<in> set (node_list G) \<and> snd e \<in> set (node_list G))"

definition has_edge :: "'a graph \<Rightarrow> 'a \<Rightarrow> 'a \<Rightarrow> bool" where
  "has_edge G u v \<longleftrightarrow> (u, v) \<in> set (edges G)"

definition successors :: "'a graph \<Rightarrow> 'a \<Rightarrow> 'a list" where
  "successors G key = remdups (map snd (filter (\<lambda>e. fst e = key) (edges G)))"

definition predecessors :: "'a graph \<Rightarrow> 'a \<Rightarrow> 'a list" where
  "predecessors G key = remdups (map fst (filter (\<lambda>e. snd e = key) (edges G)))"

definition number_of_nodes :: "'a graph \<Rightarrow> nat" where
  "number_of_nodes G = length (node_list G)"

section \<open>Cluster pairs\<close>

text \<open>
  \<open>info\<close> is a Python list of two node lists, \<open>info[0]\<close> (cluster R) and \<open>info[1]\<close>
  (cluster B); every loop \<open>for m in xrange(len(info))\<close> runs over the indices 0 and 1.
  It is modelled as a pair of lists, read by index with \<open>info_at\<close>.
\<close>

type_synonym 'a info = "'a list \<times> 'a list"

fun info_at :: "'a info \<Rightarrow> nat \<Rightarrow> 'a list" where
  "info_at info 0 = fst info"
| "info_at info (Suc m) = snd info"

text \<open>
  \<open>list(set(xs) - set(ys))\<close>: the members of \<open>xs\<close> that are not in \<open>ys\<close>, each once.
  Python does not fix the order in which a set is listed; the model lists the members in
  the order of \<open>remdups\<close>.  The functions below read these lists only through
  membership tests and \<open>len\<close>.
\<close>

definition list_set_diff :: "'a list \<Rightarrow> 'a list \<Rightarrow> 'a list" where
  "list_set_diff xs ys = remdups (filter (\<lambda>x. x \<notin> set ys) xs)"

text \<open>
  The scan shared by both filters.  \<open>scan_row\<close> is the loop \<open>for key2 in info[x]\<close> for
  one \<open>x\<close>, with \<open>same\<close> standing for \<open>x == m\<close>; the flags \<open>in_con\<close> and \<open>out_con\<close>
  (0 or 1 in the source) are booleans, and \<open>break\<close> leaves the loop over \<open>info[x]\<close> only.
  \<open>connections\<close> is the loop \<open>for x in xrange(len(info))\<close> around it.
\<close>

fun scan_row :: "'a graph \<Rightarrow> 'a \<Rightarrow> bool \<Rightarrow> 'a list \<Rightarrow> bool \<times> bool \<Rightarrow> bool \<times> bool" where
  "scan_row G key1 same [] (in_con, out_con) = (in_con, out_con)"
| "scan_row G key1 same (key2 # rest) (in_con, out_con) =
     (let in_con1 = (if same \<and> \<not> in_con then (if has_edge G key1 key2 then True else in_con)
                     else in_con);
          out_con1 = (if \<not> same \<and> \<not> out_con then (if has_edge G key1 key2 then True else out_con)
                      else out_con)
      in if in_con1 \<and> out_con1 then (in_con1, out_con1)
         else scan_row G key1 same rest (in_con1, out_con1))"

definition connections :: "'a graph \<Rightarrow> 'a info \<Rightarrow> nat \<Rightarrow> 'a \<Rightarrow> bool \<times> bool" where
  "connections G info m key1 =
     scan_row G key1 (1 = m) (info_at info 1)
       (scan_row G key1 (0 = m) (info_at info 0) (False, False))"

section \<open>InterconnectionFilter: \<open>excluding_inter_connections\<close>\<close>

definition inter_nodes :: "'a graph \<Rightarrow> 'a info \<Rightarrow> nat \<Rightarrow> 'a list" where
  "inter_nodes G info m =
     filter (\<lambda>key1. case connections G info m key1 of
                      (in_con, out_con) \<Rightarrow> \<not> in_con \<and> out_con)
       (info_at info m)"

definition excluding_inter_connections :: "'a graph \<Rightarrow> 'a info \<Rightarrow> 'a info" where
  "excluding_inter_connections G info =
     (let temp0 = remdups (inter_nodes G info 0);
          temp1 = remdups (inter_nodes G info 1)
      in (list_set_diff (fst info) temp0, list_set_diff (snd info) temp1))"

section \<open>The growth step: \<open>unique_sucsessors\<close>\<close>

definition conflict_nodes :: "'a graph \<Rightarrow> 'a info \<Rightarrow> nat \<Rightarrow> 'a list" where
  "conflict_nodes G info m =
     filter (\<lambda>key1. case connections G info m key1 of
                      (in_con, out_con) \<Rightarrow> in_con \<and> out_con)
       (info_at info m)"

definition add_unique :: "'a graph \<Rightarrow> 'a info \<Rightarrow> 'a info" where
  "add_unique G info =
     (let temp1_0 = concat (map (successors G) (fst info));
          temp1_1 = concat (map (successors G) (snd info))
      in (fst info @ list_set_diff temp1_0 temp1_1,
          snd info @ list_set_diff temp1_1 temp1_0))"

definition unique_sucsessors :: "'a graph \<Rightarrow> 'a info \<Rightarrow> 'a info" where
  "unique_sucsessors G info =
     (let info1 = add_unique G info;
          temp0 = remdups (conflict_nodes G info1 0);
          temp1 = remdups (conflict_nodes G info1 1)
      in (list_set_diff (fst info1) temp0, list_set_diff (snd info1) temp1))"

section \<open>Candidate seed pairs: \<open>create_table\<close>\<close>

text \<open>
  The outer loop takes the nodes in the order of \<open>G.nodes()\<close>; the counter \<open>b\<close> makes
  the inner loop run over the nodes after \<open>key\<close>, here the rest of the list.
\<close>

fun table_rows :: "'a graph \<Rightarrow> 'a list \<Rightarrow> ('a \<times> 'a) list" where
  "table_rows G [] = []"
| "table_rows G (key # rest) =
     map (\<lambda>y. (key, y))
       (filter (\<lambda>y. y \<notin> set (successors G key) \<and> y \<notin> set (predecessors G key)) rest)
     @ table_rows G rest"

definition create_table :: "'a graph \<Rightarrow> ('a \<times> 'a) list" where
  "create_table G = table_rows G (node_list G)"

section \<open>SeedGrower: \<open>find_single_solution\<close>\<close>

text \<open>
  The \<open>while check > 0\<close> loop, with the loop variables \<open>length1\<close>, \<open>length2\<close>, \<open>check\<close>
  and \<open>n\<close> as arguments.  The source returns \<open>info\<close>; the model also returns the final
  value of the counter \<open>n\<close>, which is the number of calls of \<open>unique_sucsessors\<close> made.
\<close>

function grow_loop :: "'a graph \<Rightarrow> 'a info \<Rightarrow> nat \<Rightarrow> nat \<Rightarrow> int \<Rightarrow> nat \<Rightarrow> 'a info \<times> nat" where
  "grow_loop G info length1 length2 check n =
     (if check > 0 then
        (let n1 = n + 1;
             info1 = unique_sucsessors G info;
             grew = (length1 < length (fst info1) \<or> length2 < length (snd info1));
             length1a = (if grew then length (fst info1) else length1);
             length2a = (if grew then length (snd info1) else length2);
             check1 = (if grew then check else check - 1);
             check2 = (if n1 > 15 then check1 - 1 else check1)
         in grow_loop G info1 length1a length2a check2 n1)
      else (info, n))"
  by pat_completeness auto
termination
  by (relation "measure (\<lambda>(G, info, length1, length2, check, n). nat check + (16 - n))")
     (auto simp: Let_def)

declare grow_loop.simps [simp del]

definition find_single_solution :: "'a graph \<Rightarrow> 'a info \<Rightarrow> 'a info" where
  "find_single_solution G info = fst (grow_loop G info 0 0 1 0)"

definition growth_rounds :: "'a graph \<Rightarrow> 'a info \<Rightarrow> nat" where
  "growth_rounds G info = snd (grow_loop G info 0 0 1 0)"

section \<open>Python numbers\<close>

text \<open>
  \<open>find_clusters\<close> computes with Python floats, which are IEEE 754 binary64 numbers.
  A finite float is modelled by the rational number it denotes, and every float
  operation is the exact operation followed by \<open>fl\<close>, rounding to the nearest number
  with a 53-bit significand, ties to the even significand.  The exponent range is not
  bounded in the model: the values of this program (at most a few times \<open>nodes\<^sup>2\<close>, and
  quotients of such numbers) are far from overflow and underflow.

  \<open>expo x\<close> is the exponent \<open>e\<close> with \<open>2\<^sup>e \<le> x < 2\<^sup>e\<^sup>+\<^sup>1\<close> for positive \<open>x\<close>.
\<close>

definition round_half_even :: "rat \<Rightarrow> int" where
  "round_half_even x =
     (let f = \<lfloor>x\<rfloor>; d = x - of_int f
      in if d < 1 / 2 then f else if 1 / 2 < d then f + 1 else if even f then f else f + 1)"

definition expo :: "rat \<Rightarrow> int" where
  "expo x = (if 1 \<le> x then bitlen \<lfloor>x\<rfloor> - 1 else - bitlen (- \<lfloor>- (1 / x)\<rfloor> - 1))"

definition fl :: "rat \<Rightarrow> rat" where
  "fl x = (if x = 0 then 0
           else (let e = expo \<bar>x\<bar> - 52
                 in sgn x * of_int (round_half_even (\<bar>x\<bar> / 2 powi e)) * 2 powi e))"

definition float_of_int :: "int \<Rightarrow> rat" where
  "float_of_int k = fl (of_int k)"

definition fadd :: "rat \<Rightarrow> rat \<Rightarrow> rat" where
  "fadd x y = fl (x + y)"

definition fsub :: "rat \<Rightarrow> rat \<Rightarrow> rat" where
  "fsub x y = fl (x - y)"

definition fmul :: "rat \<Rightarrow> rat \<Rightarrow> rat" where
  "fmul x y = fl (x * y)"

text \<open>\<open>x / y\<close> for a divisor that is not zero; the callers test the divisor.\<close>

definition fdiv :: "rat \<Rightarrow> rat \<Rightarrow> rat" where
  "fdiv x y = fl (x / y)"

text \<open>\<open>int(x)\<close> of a float truncates towards zero.\<close>

definition py_trunc :: "rat \<Rightarrow> int" where
  "py_trunc x = (if 0 \<le> x then \<lfloor>x\<rfloor> else \<lceil>x\<rceil>)"

text \<open>
  \<open>round(x, 2)\<close> in Python 2.7: the float nearest to \<open>x\<close> rounded to two decimal
  places, halves away from zero.
\<close>

definition py_round2 :: "rat \<Rightarrow> rat" where
  "py_round2 x = fl (sgn x * of_int \<lfloor>\<bar>x\<bar> * 100 + 1 / 2\<rfloor> / 100)"

text \<open>
  \<open>int(s)\<close> of a string: surrounding whitespace is dropped, one sign is allowed, and
  the rest must be one or more decimal digits; anything else raises \<open>ValueError\<close>,
  here \<open>None\<close>.
\<close>

definition is_space :: "char \<Rightarrow> bool" where
  "is_space c \<longleftrightarrow> c \<in> set [CHR '' '', CHR 0x09, CHR 0x0A, CHR 0x0B, CHR 0x0C, CHR 0x0D]"

definition is_digit :: "char \<Rightarrow> bool" where
  "is_digit c \<longleftrightarrow> c \<in> set ''0123456789''"

definition digit_value :: "char \<Rightarrow> int" where
  "digit_value c = int (of_char c) - 48"

definition strip :: "string \<Rightarrow> string" where
  "strip s = rev (dropWhile is_space (rev (dropWhile is_space s)))"

definition digits_value :: "string \<Rightarrow> int" where
  "digits_value ds = foldl (\<lambda>acc c. 10 * acc + digit_value c) 0 ds"

definition py_int_str :: "string \<Rightarrow> int option" where
  "py_int_str s =
     (let t = strip s;
          negative = (t \<noteq> [] \<and> hd t = CHR ''-'');
          ds = (if t \<noteq> [] \<and> (hd t = CHR ''-'' \<or> hd t = CHR ''+'') then tl t else t)
      in if ds \<noteq> [] \<and> list_all is_digit ds
         then Some (if negative then - digits_value ds else digits_value ds)
         else None)"

section \<open>ClusterSearch: \<open>find_clusters\<close>\<close>

datatype error = ValueError | ZeroDivisionError

text \<open>The values that occur in \<open>info_cluster\<close>.\<close>

datatype 'a pyval = PyStr string | PyNode 'a | PyInt int | PyFloat rat | PyList "'a pyval list"

text \<open>
  The variables that live across the iterations of the search loop.  \<open>max_key1\<close> and
  \<open>max_key2\<close> are written and read within one branch only and are not kept; the
  progress line printed every 40 candidates is not modelled.
\<close>

record 'a search =
  p_eff_max :: rat
  max_len1 :: rat
  max_len2 :: rat
  info_cluster :: "'a pyval list"
  cluster :: "'a info"

text \<open>Lines 212 to 214: growth from the seed pair and the optional filter.\<close>

definition grow_candidate :: "'a graph \<Rightarrow> bool \<Rightarrow> 'a \<times> 'a \<Rightarrow> 'a info" where
  "grow_candidate G exclude_inter origin =
     (let temp = find_single_solution G ([fst origin], [snd origin])
      in if exclude_inter then excluding_inter_connections G temp else temp)"

text \<open>
  Lines 215 to 219.  \<open>nodes\<close> and \<open>p_before\<close> are Python integers and are converted
  to float where they meet a float; the literals 1 and 100 are exact.  The division
  raises \<open>ZeroDivisionError\<close> when \<open>p_before\<close> is 0.
\<close>

definition p_after_of :: "nat \<Rightarrow> rat \<Rightarrow> rat \<Rightarrow> rat" where
  "p_after_of nodes length1 length2 =
     (let a = fsub (fsub (float_of_int (int nodes)) length1) length2
      in fadd (fadd (fmul length1 (fadd length1 a)) (fmul length2 (fadd length2 a)))
              (fmul (float_of_int (int nodes)) a))"

definition p_eff_of :: "rat \<Rightarrow> int \<Rightarrow> rat" where
  "p_eff_of p_after p_before = fmul 100 (fsub 1 (fdiv p_after (float_of_int p_before)))"

definition score :: "nat \<Rightarrow> int \<Rightarrow> 'a info \<Rightarrow> error + (rat \<times> rat \<times> rat \<times> rat)" where
  "score nodes p_before temp =
     (let length1 = float_of_int (int (length (fst temp)));
          length2 = float_of_int (int (length (snd temp)));
          p_after = p_after_of nodes length1 length2
      in if p_before = 0 then Inl ZeroDivisionError
         else Inr (length1, length2, p_after, p_eff_of p_after p_before))"

text \<open>The first eight entries of every descriptive record.\<close>

definition report :: "'a \<Rightarrow> 'a \<Rightarrow> rat \<Rightarrow> rat \<Rightarrow> 'a pyval list" where
  "report key1 key2 len1 len2 =
     [PyStr ''Node1:'', PyNode key1, PyStr ''Node2:'', PyNode key2,
      PyStr ''R size:'', PyInt (py_trunc len1), PyStr ''B size:'', PyInt (py_trunc len2)]"

text \<open>
  Lines 221 to 233, the body of \<open>if criterion == "power"\<close>.  In the threshold branch
  \<open>int(parameter)\<close> is the first thing evaluated.
\<close>

definition select_power ::
  "string \<Rightarrow> 'a search \<Rightarrow> 'a \<Rightarrow> 'a \<Rightarrow> 'a info \<Rightarrow> rat \<Rightarrow> rat \<Rightarrow> rat \<Rightarrow> error + 'a search" where
  "select_power parameter st key1 key2 temp length1 length2 p_eff =
     (if parameter = ''max'' then
        (if p_eff > p_eff_max st \<and> length1 \<noteq> 0 \<and> length2 \<noteq> 0
         then Inr (st\<lparr>max_len1 := length1, max_len2 := length2, p_eff_max := p_eff,
                     cluster := temp,
                     info_cluster := report key1 key2 length1 length2
                       @ [PyStr ''P saving (max):'', PyFloat (py_round2 p_eff)]\<rparr>)
         else Inr st)
      else
        (case py_int_str parameter of
           None \<Rightarrow> Inl ValueError
         | Some N \<Rightarrow>
             if p_eff > of_int N \<and> length1 \<noteq> 0 \<and> length2 \<noteq> 0
             then (let st1 = st\<lparr>info_cluster := info_cluster st
                       @ [PyList (report key1 key2 length1 length2
                            @ [PyStr ''P saving:'', PyFloat (py_round2 p_eff)])]\<rparr>
                   in Inr (if p_eff_max st1 < p_eff
                           then st1\<lparr>p_eff_max := p_eff, cluster := temp\<rparr> else st1))
             else Inr st))"

text \<open>Lines 234 to 246, the body of \<open>if criterion == "size"\<close>.\<close>

definition select_size ::
  "string \<Rightarrow> 'a search \<Rightarrow> 'a \<Rightarrow> 'a \<Rightarrow> 'a info \<Rightarrow> rat \<Rightarrow> rat \<Rightarrow> rat \<Rightarrow> error + 'a search" where
  "select_size parameter st key1 key2 temp length1 length2 p_eff =
     (if parameter = ''max'' then
        (if fadd (max_len1 st) (max_len2 st) < fadd length1 length2
              \<and> length1 \<noteq> 0 \<and> length2 \<noteq> 0
         then Inr (st\<lparr>max_len1 := length1, max_len2 := length2, p_eff_max := p_eff,
                     cluster := temp,
                     info_cluster := report key1 key2 length1 length2
                       @ [PyStr ''Size R+B(max):'', PyFloat (fadd length1 length2),
                          PyStr ''P saving:'', PyFloat (py_round2 p_eff)]\<rparr>)
         else Inr st)
      else
        (case py_int_str parameter of
           None \<Rightarrow> Inl ValueError
         | Some N \<Rightarrow>
             if fadd length1 length2 > of_int N \<and> length1 \<noteq> 0 \<and> length2 \<noteq> 0
             then (let st1 = st\<lparr>info_cluster := info_cluster st
                       @ [PyList (report key1 key2 length1 length2
                            @ [PyStr ''Size R+B:'', PyFloat (fadd length1 length2),
                               PyStr ''P saving:'', PyFloat (py_round2 p_eff)])]\<rparr>
                   in Inr (if p_eff_max st1 < p_eff
                           then st1\<lparr>p_eff_max := p_eff, cluster := temp\<rparr> else st1))
             else Inr st))"

text \<open>The two \<open>if\<close> statements on \<open>criterion\<close>, one after the other.\<close>

definition select ::
  "string \<Rightarrow> string \<Rightarrow> 'a search \<Rightarrow> 'a \<Rightarrow> 'a \<Rightarrow> 'a info \<Rightarrow> rat \<Rightarrow> rat \<Rightarrow> rat
     \<Rightarrow> error + 'a search" where
  "select criterion parameter st key1 key2 temp length1 length2 p_eff =
     (case (if criterion = ''power''
            then select_power parameter st key1 key2 temp length1 length2 p_eff
            else Inr st) of
        Inl e \<Rightarrow> Inl e
      | Inr st1 \<Rightarrow>
          if criterion = ''size''
          then select_size parameter st1 key1 key2 temp length1 length2 p_eff
          else Inr st1)"

text \<open>One iteration of \<open>for x in xrange(len(origins))\<close>, for the pair \<open>origins[x]\<close>.\<close>

definition loop_body ::
  "'a graph \<Rightarrow> string \<Rightarrow> string \<Rightarrow> bool \<Rightarrow> nat \<Rightarrow> int \<Rightarrow> 'a search \<Rightarrow> 'a \<times> 'a
     \<Rightarrow> error + 'a search" where
  "loop_body G criterion parameter exclude_inter nodes p_before st origin =
     (let temp = grow_candidate G exclude_inter origin
      in case score nodes p_before temp of
           Inl e \<Rightarrow> Inl e
         | Inr (length1, length2, p_after, p_eff) \<Rightarrow>
             select criterion parameter st (fst origin) (snd origin) temp length1 length2 p_eff)"

fun search_loop ::
  "'a graph \<Rightarrow> string \<Rightarrow> string \<Rightarrow> bool \<Rightarrow> nat \<Rightarrow> int \<Rightarrow> 'a search \<Rightarrow> ('a \<times> 'a) list
     \<Rightarrow> error + 'a search" where
  "search_loop G criterion parameter exclude_inter nodes p_before st [] = Inr st"
| "search_loop G criterion parameter exclude_inter nodes p_before st (origin # rest) =
     (case loop_body G criterion parameter exclude_inter nodes p_before st origin of
        Inl e \<Rightarrow> Inl e
      | Inr st1 \<Rightarrow> search_loop G criterion parameter exclude_inter nodes p_before st1 rest)"

definition initial_search :: "'a search" where
  "initial_search =
     \<lparr>p_eff_max = 0, max_len1 = 0, max_len2 = 0, info_cluster = [], cluster = ([], [])\<rparr>"

definition find_clusters ::
  "'a graph \<Rightarrow> string \<Rightarrow> string \<Rightarrow> bool \<Rightarrow> error + ('a info \<times> 'a pyval list)" where
  "find_clusters G criterion parameter exclude_inter =
     (let origins = create_table G;
          nodes = number_of_nodes G;
          p_before = int nodes * int nodes
      in case search_loop G criterion parameter exclude_inter nodes p_before
                initial_search origins of
           Inl e \<Rightarrow> Inl e
         | Inr st \<Rightarrow> Inr (cluster st, info_cluster st))"

section \<open>What the search computes for one candidate\<close>

text \<open>
  Names for the quantities of one loop iteration, as functions of the candidate pair:
  whether both clusters are non-empty (\<open>length1 != 0 and length2 != 0\<close>), the power
  saving \<open>p_eff\<close>, the combined size, and the descriptive records that the max mode of
  criterion "power" and the threshold mode of criterion "size" build for it.
\<close>

definition cand_valid :: "'a graph \<Rightarrow> bool \<Rightarrow> 'a \<times> 'a \<Rightarrow> bool" where
  "cand_valid G exclude_inter origin \<longleftrightarrow>
     fst (grow_candidate G exclude_inter origin) \<noteq> [] \<and>
     snd (grow_candidate G exclude_inter origin) \<noteq> []"

definition cand_length1 :: "'a graph \<Rightarrow> bool \<Rightarrow> 'a \<times> 'a \<Rightarrow> rat" where
  "cand_length1 G exclude_inter origin =
     float_of_int (int (length (fst (grow_candidate G exclude_inter origin))))"

definition cand_length2 :: "'a graph \<Rightarrow> bool \<Rightarrow> 'a \<times> 'a \<Rightarrow> rat" where
  "cand_length2 G exclude_inter origin =
     float_of_int (int (length (snd (grow_candidate G exclude_inter origin))))"

definition cand_power :: "'a graph \<Rightarrow> bool \<Rightarrow> 'a \<times> 'a \<Rightarrow> rat" where
  "cand_power G exclude_inter origin =
     p_eff_of (p_after_of (number_of_nodes G) (cand_length1 G exclude_inter origin)
                 (cand_length2 G exclude_inter origin))
       (int (number_of_nodes G) * int (number_of_nodes G))"

definition cand_size :: "'a graph \<Rightarrow> bool \<Rightarrow> 'a \<times> 'a \<Rightarrow> nat" where
  "cand_size G exclude_inter origin =
     length (fst (grow_candidate G exclude_inter origin))
       + length (snd (grow_candidate G exclude_inter origin))"

definition power_max_record :: "'a graph \<Rightarrow> bool \<Rightarrow> 'a \<times> 'a \<Rightarrow> 'a pyval list" where
  "power_max_record G exclude_inter origin =
     report (fst origin) (snd origin) (cand_length1 G exclude_inter origin)
         (cand_length2 G exclude_inter origin)
       @ [PyStr ''P saving (max):'', PyFloat (py_round2 (cand_power G exclude_inter origin))]"

definition size_record :: "'a graph \<Rightarrow> bool \<Rightarrow> 'a \<times> 'a \<Rightarrow> 'a pyval" where
  "size_record G exclude_inter origin =
     PyList (report (fst origin) (snd origin) (cand_length1 G exclude_inter origin)
               (cand_length2 G exclude_inter origin)
             @ [PyStr ''Size R+B:'',
                PyFloat (fadd (cand_length1 G exclude_inter origin)
                              (cand_length2 G exclude_inter origin)),
                PyStr ''P saving:'', PyFloat (py_round2 (cand_power G exclude_inter origin))])"

text \<open>\<open>r + b > N\<close> with \<open>r\<close> and \<open>b\<close> not zero.\<close>

definition size_qualifies :: "'a graph \<Rightarrow> bool \<Rightarrow> int \<Rightarrow> 'a \<times> 'a \<Rightarrow> bool" where
  "size_qualifies G exclude_inter N origin \<longleftrightarrow>
     N < int (cand_size G exclude_inter origin) \<and> cand_valid G exclude_inter origin"

section \<open>Example graphs\<close>

text \<open>Small graphs on which the functions above are evaluated further down.\<close>

definition chain3 :: "nat graph" where
  "chain3 = \<lparr>node_list = [1, 2, 3], edges = [(1, 3), (3, 2)]\<rparr>"

definition chain17 :: "nat graph" where
  "chain17 = \<lparr>node_list = [1, 2, 3, 4, 5, 6, 7, 8, 9, 10, 11, 12, 13, 14, 15, 16, 17],
     edges = [(1, 3), (3, 4), (4, 5), (5, 6), (6, 7), (7, 8), (8, 9), (9, 10), (10, 11),
              (11, 12), (12, 13), (13, 14), (14, 15), (15, 16), (16, 17)]\<rparr>"

definition isolated3 :: "nat graph" where
  "isolated3 = \<lparr>node_list = [1, 2, 3], edges = []\<rparr>"

definition triangle3 :: "nat graph" where
  "triangle3 = \<lparr>node_list = [1, 2, 3], edges = [(1, 3), (1, 2), (3, 2)]\<rparr>"

definition fan6 :: "nat graph" where
  "fan6 = \<lparr>node_list = [1, 2, 3, 4, 5, 6],
     edges = [(1, 3), (1, 6), (3, 4), (6, 4), (3, 2), (6, 2), (2, 5), (5, 2)]\<rparr>"

text \<open>
  Two abbreviations used in the statements below: \<open>edge_into G k row\<close> says that \<open>k\<close>
  has an edge to a member of \<open>row\<close>, which is what the flags \<open>in_con\<close> and \<open>out_con\<close>
  record; \<open>no_hybrid\<close> says that no member of a cluster has both flags set.
\<close>

definition edge_into :: "'a graph \<Rightarrow> 'a \<Rightarrow> 'a list \<Rightarrow> bool" where
  "edge_into G key1 row \<longleftrightarrow> (\<exists>key2 \<in> set row. has_edge G key1 key2)"

definition no_hybrid :: "'a graph \<Rightarrow> 'a info \<Rightarrow> bool" where
  "no_hybrid G info \<longleftrightarrow>
     (\<forall>k \<in> set (fst info). \<not> (edge_into G k (fst info) \<and> edge_into G k (snd info))) \<and>
     (\<forall>k \<in> set (snd info). \<not> (edge_into G k (snd info) \<and> edge_into G k (fst info)))"

section \<open>Basic facts about the list operations and the scan\<close>

lemma set_list_set_diff: "set (list_set_diff xs ys) = set xs - set ys"
  by (auto simp: list_set_diff_def)

lemma distinct_list_set_diff: "distinct (list_set_diff xs ys)"
  by (simp add: list_set_diff_def)

lemma list_set_diff_none: "distinct xs \<Longrightarrow> set xs \<inter> set ys = {} \<Longrightarrow> list_set_diff xs ys = xs"
proof -
  assume d: "distinct xs" and e: "set xs \<inter> set ys = {}"
  have "filter (\<lambda>x. x \<notin> set ys) xs = xs"
    using e by (intro filter_True) auto
  then show ?thesis using d by (simp add: list_set_diff_def)
qed

lemma scan_row_eq:
  "scan_row G key1 same row (i, out) =
     (i \<or> (same \<and> (\<exists>key2 \<in> set row. has_edge G key1 key2)),
      out \<or> (\<not> same \<and> (\<exists>key2 \<in> set row. has_edge G key1 key2)))"
  by (induction row arbitrary: i out) (auto simp: Let_def)

lemma connections_0:
  "connections G info 0 key1 =
     ((\<exists>key2 \<in> set (fst info). has_edge G key1 key2), (\<exists>key2 \<in> set (snd info). has_edge G key1 key2))"
  by (simp add: connections_def scan_row_eq)

lemma connections_1:
  "connections G info (Suc 0) key1 =
     ((\<exists>key2 \<in> set (snd info). has_edge G key1 key2), (\<exists>key2 \<in> set (fst info). has_edge G key1 key2))"
  by (simp add: connections_def scan_row_eq)

lemma edge_into_mono: "set row \<subseteq> set row' \<Longrightarrow> edge_into G k row \<Longrightarrow> edge_into G k row'"
  by (auto simp: edge_into_def)

lemma set_conflict_nodes_0:
  "set (conflict_nodes G info 0) = {k \<in> set (fst info). edge_into G k (fst info) \<and> edge_into G k (snd info)}"
  by (auto simp: conflict_nodes_def connections_0 edge_into_def)

lemma set_conflict_nodes_1:
  "set (conflict_nodes G info (Suc 0)) = {k \<in> set (snd info). edge_into G k (snd info) \<and> edge_into G k (fst info)}"
  by (auto simp: conflict_nodes_def connections_1 edge_into_def)

lemma set_inter_nodes_0:
  "set (inter_nodes G info 0) = {k \<in> set (fst info). \<not> edge_into G k (fst info) \<and> edge_into G k (snd info)}"
  by (auto simp: inter_nodes_def connections_0 edge_into_def)

lemma set_inter_nodes_1:
  "set (inter_nodes G info (Suc 0)) = {k \<in> set (snd info). \<not> edge_into G k (snd info) \<and> edge_into G k (fst info)}"
  by (auto simp: inter_nodes_def connections_1 edge_into_def)

lemma set_unique_sucsessors_fst:
  "set (fst (unique_sucsessors G info)) =
     set (fst (add_unique G info)) - set (conflict_nodes G (add_unique G info) 0)"
  by (simp add: unique_sucsessors_def Let_def set_list_set_diff)

lemma set_unique_sucsessors_snd:
  "set (snd (unique_sucsessors G info)) =
     set (snd (add_unique G info)) - set (conflict_nodes G (add_unique G info) (Suc 0))"
  by (simp add: unique_sucsessors_def Let_def set_list_set_diff)

lemma distinct_unique_sucsessors:
  "distinct (fst (unique_sucsessors G info))" "distinct (snd (unique_sucsessors G info))"
  by (simp_all add: unique_sucsessors_def Let_def distinct_list_set_diff)

lemma no_hybrid_unique_sucsessors: "no_hybrid G (unique_sucsessors G info)"
proof -
  let ?i1 = "add_unique G info"
  let ?u = "unique_sucsessors G info"
  have s0: "set (fst ?u) \<subseteq> set (fst ?i1)" and s1: "set (snd ?u) \<subseteq> set (snd ?i1)"
    by (auto simp: set_unique_sucsessors_fst set_unique_sucsessors_snd)
  have a: "\<not> (edge_into G k (fst ?u) \<and> edge_into G k (snd ?u))" if "k \<in> set (fst ?u)" for k
  proof -
    from that have "k \<in> set (fst ?i1)" "k \<notin> set (conflict_nodes G ?i1 0)"
      by (auto simp: set_unique_sucsessors_fst)
    then have "\<not> (edge_into G k (fst ?i1) \<and> edge_into G k (snd ?i1))"
      by (simp add: set_conflict_nodes_0)
    then show ?thesis using edge_into_mono[OF s0] edge_into_mono[OF s1] by blast
  qed
  have b: "\<not> (edge_into G k (snd ?u) \<and> edge_into G k (fst ?u))" if "k \<in> set (snd ?u)" for k
  proof -
    from that have "k \<in> set (snd ?i1)" "k \<notin> set (conflict_nodes G ?i1 (Suc 0))"
      by (auto simp: set_unique_sucsessors_snd)
    then have "\<not> (edge_into G k (snd ?i1) \<and> edge_into G k (fst ?i1))"
      by (simp add: set_conflict_nodes_1)
    then show ?thesis using edge_into_mono[OF s0] edge_into_mono[OF s1] by blast
  qed
  show ?thesis unfolding no_hybrid_def using a b by blast
qed

lemma set_excluding_fst:
  "set (fst (excluding_inter_connections G info)) = set (fst info) - set (inter_nodes G info 0)"
  by (simp add: excluding_inter_connections_def Let_def set_list_set_diff)

lemma set_excluding_snd:
  "set (snd (excluding_inter_connections G info)) = set (snd info) - set (inter_nodes G info (Suc 0))"
  by (simp add: excluding_inter_connections_def Let_def set_list_set_diff)

lemma distinct_excluding:
  "distinct (fst (excluding_inter_connections G info))" "distinct (snd (excluding_inter_connections G info))"
  by (simp_all add: excluding_inter_connections_def Let_def distinct_list_set_diff)

lemma excluding_fixed:
  assumes "distinct (fst info)" "distinct (snd info)"
    and "inter_nodes G info 0 = []" "inter_nodes G info (Suc 0) = []"
  shows "excluding_inter_connections G info = info"
  using assms by (simp add: excluding_inter_connections_def list_set_diff_none prod_eq_iff)

lemma excluding_twice_no_hybrid:
  assumes "no_hybrid G info"
  shows "excluding_inter_connections G (excluding_inter_connections G info)
           = excluding_inter_connections G info"
proof -
  let ?e = "excluding_inter_connections G info"
  have s0: "set (fst ?e) \<subseteq> set (fst info)" and s1: "set (snd ?e) \<subseteq> set (snd info)"
    by (auto simp: set_excluding_fst set_excluding_snd)
  have a: "\<not> edge_into G k (snd ?e)" if "k \<in> set (fst ?e)" for k
  proof -
    from that have k: "k \<in> set (fst info)" "k \<notin> set (inter_nodes G info 0)"
      by (auto simp: set_excluding_fst)
    with assms have "\<not> edge_into G k (snd info)"
      by (auto simp: no_hybrid_def set_inter_nodes_0)
    then show ?thesis using edge_into_mono[OF s1] by blast
  qed
  have b: "\<not> edge_into G k (fst ?e)" if "k \<in> set (snd ?e)" for k
  proof -
    from that have k: "k \<in> set (snd info)" "k \<notin> set (inter_nodes G info (Suc 0))"
      by (auto simp: set_excluding_snd)
    with assms have "\<not> edge_into G k (fst info)"
      by (auto simp: no_hybrid_def set_inter_nodes_1)
    then show ?thesis using edge_into_mono[OF s0] by blast
  qed
  have "set (inter_nodes G ?e 0) = {}" using a by (auto simp: set_inter_nodes_0)
  moreover have "set (inter_nodes G ?e (Suc 0)) = {}" using b by (auto simp: set_inter_nodes_1)
  ultimately show ?thesis
    by (intro excluding_fixed distinct_excluding) simp_all
qed

lemma grow_loop_last_round:
  "0 < check \<Longrightarrow> \<exists>info'. fst (grow_loop G info length1 length2 check n) = unique_sucsessors G info'"
proof (induction G info length1 length2 check n rule: grow_loop.induct)
  case (1 G info length1 length2 check n)
  let ?info1 = "unique_sucsessors G info"
  let ?grew = "length1 < length (fst ?info1) \<or> length2 < length (snd ?info1)"
  let ?l1 = "if ?grew then length (fst ?info1) else length1"
  let ?l2 = "if ?grew then length (snd ?info1) else length2"
  let ?c1 = "if ?grew then check else check - 1"
  let ?c2 = "if n + 1 > 15 then ?c1 - 1 else ?c1"
  have step: "grow_loop G info length1 length2 check n = grow_loop G ?info1 ?l1 ?l2 ?c2 (n + 1)"
    using "1.prems" by (subst grow_loop.simps) (simp add: Let_def)
  show ?case
  proof (cases "0 < ?c2")
    case True
    from "1.IH"[OF "1.prems" refl refl refl refl refl refl refl True]
    show ?thesis unfolding step .
  next
    case False
    then have "grow_loop G ?info1 ?l1 ?l2 ?c2 (n + 1) = (?info1, n + 1)"
      by (subst grow_loop.simps) simp
    then have "fst (grow_loop G info length1 length2 check n) = unique_sucsessors G info"
      unfolding step by simp
    then show ?thesis by blast
  qed
qed

lemma find_single_solution_no_hybrid: "no_hybrid G (find_single_solution G info)"
proof -
  obtain info' where "find_single_solution G info = unique_sucsessors G info'"
    using grow_loop_last_round[of 1 G info 0 0 0] by (auto simp: find_single_solution_def)
  then show ?thesis by (simp add: no_hybrid_unique_sucsessors)
qed

section \<open>The order in which sets are listed\<close>

text \<open>
  The order in which \<open>list(set(\<dots>))\<close> lists its members does not matter: the members
  of the clusters after a growth round or after the filter, and hence the lengths of
  these duplicate-free lists, depend only on the members of the clusters before.
\<close>

lemma set_add_unique:
  "set (fst (add_unique G info)) =
     set (fst info) \<union> ((\<Union>k \<in> set (fst info). set (successors G k))
                        - (\<Union>k \<in> set (snd info). set (successors G k)))"
  "set (snd (add_unique G info)) =
     set (snd info) \<union> ((\<Union>k \<in> set (snd info). set (successors G k))
                        - (\<Union>k \<in> set (fst info). set (successors G k)))"
  by (auto simp: add_unique_def Let_def set_list_set_diff)

lemma edge_into_cong: "set row = set row' \<Longrightarrow> edge_into G k row = edge_into G k row'"
  by (simp add: edge_into_def)

lemma unique_sucsessors_members:
  assumes "set (fst info) = set (fst info')" "set (snd info) = set (snd info')"
  shows "set (fst (unique_sucsessors G info)) = set (fst (unique_sucsessors G info'))"
    and "set (snd (unique_sucsessors G info)) = set (snd (unique_sucsessors G info'))"
proof -
  have a: "set (fst (add_unique G info)) = set (fst (add_unique G info'))"
    "set (snd (add_unique G info)) = set (snd (add_unique G info'))"
    by (simp_all add: set_add_unique assms)
  show "set (fst (unique_sucsessors G info)) = set (fst (unique_sucsessors G info'))"
    unfolding set_unique_sucsessors_fst set_conflict_nodes_0
    using a edge_into_cong[OF a(1)] edge_into_cong[OF a(2)] by auto
  show "set (snd (unique_sucsessors G info)) = set (snd (unique_sucsessors G info'))"
    unfolding set_unique_sucsessors_snd set_conflict_nodes_1
    using a edge_into_cong[OF a(1)] edge_into_cong[OF a(2)] by auto
qed

lemma excluding_members:
  assumes "set (fst info) = set (fst info')" "set (snd info) = set (snd info')"
  shows "set (fst (excluding_inter_connections G info))
           = set (fst (excluding_inter_connections G info'))"
    and "set (snd (excluding_inter_connections G info))
           = set (snd (excluding_inter_connections G info'))"
  unfolding set_excluding_fst set_excluding_snd set_inter_nodes_0 set_inter_nodes_1
  using assms edge_into_cong[OF assms(1)] edge_into_cong[OF assms(2)] by auto

section \<open>Evaluating the loop on concrete graphs\<close>

lemma grow_loop_step:
  "0 < check \<Longrightarrow> grow_loop G info length1 length2 check n =
     (let n1 = n + 1;
          info1 = unique_sucsessors G info;
          grew = (length1 < length (fst info1) \<or> length2 < length (snd info1));
          length1a = (if grew then length (fst info1) else length1);
          length2a = (if grew then length (snd info1) else length2);
          check1 = (if grew then check else check - 1);
          check2 = (if n1 > 15 then check1 - 1 else check1)
      in grow_loop G info1 length1a length2a check2 n1)"
  by (subst grow_loop.simps) simp

lemma grow_loop_stop:
  "\<not> 0 < check \<Longrightarrow> grow_loop G info length1 length2 check n = (info, n)"
  by (subst grow_loop.simps) simp

lemmas eval_defs = unique_sucsessors_def add_unique_def conflict_nodes_def connections_def
  list_set_diff_def successors_def predecessors_def has_edge_def create_table_def
  excluding_inter_connections_def inter_nodes_def scan_row_eq
  find_single_solution_def growth_rounds_def grow_loop_step grow_loop_stop

section \<open>Disjointness of the two clusters\<close>

text \<open>
  C1. The claim: on every graph and for every seed pair, \<open>info[0]\<close> and \<open>info[1]\<close> are
  disjoint after every growth round, after the filter and in the pair returned.
  The code does not keep this.  On the graph with nodes 1, 2, 3 and edges
  \<open>1 \<rightarrow> 3\<close>, \<open>3 \<rightarrow> 2\<close> the only candidate pair is (1, 2).  The first round adds 3 to the
  cluster of 1.  In the second round node 2, the seed of the other cluster, is a successor
  of 3 and of no member of the second cluster, so line 100 appends it to \<open>info[0]\<close>
  although it is in \<open>info[1]\<close>; the conflict removal drops 3 only.  The pair returned
  is \<open>([1, 2], [2])\<close>.
\<close>

theorem clusters_overlap_on_chain3:
  "create_table chain3 = [(1, 2)] \<and>
   unique_sucsessors chain3 ([1], [2]) = ([1, 3], [2]) \<and>
   unique_sucsessors chain3 ([1, 3], [2]) = ([1, 2], [2]) \<and>
   find_single_solution chain3 ([1], [2]) = ([1, 2], [2]) \<and>
   set (fst (find_single_solution chain3 ([1], [2])))
     \<inter> set (snd (find_single_solution chain3 ([1], [2]))) = {2}"
  by (simp add: eval_defs chain3_def del: scan_row.simps)

section \<open>The number of growth rounds\<close>

lemma grow_loop_rounds:
  "check \<le> 1 \<Longrightarrow> (0 < check \<longrightarrow> n \<le> 15) \<Longrightarrow>
     snd (grow_loop G info length1 length2 check n) \<le> max 16 n"
proof (induction G info length1 length2 check n rule: grow_loop.induct)
  case (1 G info length1 length2 check n)
  show ?case
  proof (cases "0 < check")
    case False
    then show ?thesis by (subst grow_loop.simps) simp
  next
    case True
    let ?info1 = "unique_sucsessors G info"
    let ?grew = "length1 < length (fst ?info1) \<or> length2 < length (snd ?info1)"
    let ?l1 = "if ?grew then length (fst ?info1) else length1"
    let ?l2 = "if ?grew then length (snd ?info1) else length2"
    let ?c1 = "if ?grew then check else check - 1"
    let ?c2 = "if n + 1 > 15 then ?c1 - 1 else ?c1"
    have step: "grow_loop G info length1 length2 check n = grow_loop G ?info1 ?l1 ?l2 ?c2 (n + 1)"
      using True by (subst grow_loop.simps) (simp add: Let_def)
    have c2: "?c2 \<le> 1" using "1.prems" by auto
    have n1: "0 < ?c2 \<longrightarrow> n + 1 \<le> 15" using "1.prems" by auto
    have "snd (grow_loop G ?info1 ?l1 ?l2 ?c2 (n + 1)) \<le> max 16 (n + 1)"
      by (rule "1.IH"[OF True refl refl refl refl refl refl refl c2 n1])
    moreover have "n \<le> 15" using True "1.prems" by simp
    ultimately show ?thesis unfolding step by simp
  qed
qed

text \<open>
  C2, as the claim states it: \<open>find_single_solution\<close> calls the growth step at most 15
  times.  It fails on a chain \<open>1 \<rightarrow> 3 \<rightarrow> 4 \<rightarrow> \<dots> \<rightarrow> 17\<close> with the isolated node 2:
  for the candidate pair (1, 2) every one of the first 15 rounds adds one node, and the
  test \<open>n > 15\<close> ends the loop only after the 16th call.
\<close>

theorem sixteen_rounds_on_chain17:
  "(1, 2) \<in> set (create_table chain17) \<and> \<not> growth_rounds chain17 ([1], [2]) \<le> 15"
  by (simp add: eval_defs chain17_def del: scan_row.simps)

text \<open>
  C2, amended: for every graph and every starting pair, \<open>find_single_solution\<close> calls
  the growth step at most 16 times.
\<close>

theorem growth_rounds_le_16: "growth_rounds G info \<le> 16"
  using grow_loop_rounds[of 1 0 G info 0 0] by (simp add: growth_rounds_def)

section \<open>Applying the filter twice\<close>

text \<open>
  C4, as the claim states it: for every graph and every cluster pair, a second application
  of \<open>excluding_inter_connections\<close> changes nothing.  It fails on the graph with edges
  \<open>1 \<rightarrow> 3\<close>, \<open>1 \<rightarrow> 2\<close>, \<open>3 \<rightarrow> 2\<close> and the pair \<open>([1, 3], [2])\<close>: the first pass removes 3
  (no edge into its own cluster, an edge to 2) and keeps 1 because of its edge to 3; in the
  second pass 1 has lost that edge and is removed too.
\<close>

theorem filter_twice_differs_on_triangle3:
  "excluding_inter_connections triangle3 ([1, 3], [2]) = ([1], [2]) \<and>
   excluding_inter_connections triangle3 (excluding_inter_connections triangle3 ([1, 3], [2]))
     = ([], [2]) \<and>
   excluding_inter_connections triangle3 (excluding_inter_connections triangle3 ([1, 3], [2]))
     \<noteq> excluding_inter_connections triangle3 ([1, 3], [2])"
  by (simp add: eval_defs triangle3_def del: scan_row.simps)

text \<open>
  C4, amended: for every graph and every cluster pair returned by
  \<open>find_single_solution\<close> (the only pairs the search hands to the filter), applying
  \<open>excluding_inter_connections\<close> twice gives the same pair as applying it once.
\<close>

theorem filter_idempotent_after_growth:
  "excluding_inter_connections G (excluding_inter_connections G (find_single_solution G info))
     = excluding_inter_connections G (find_single_solution G info)"
  by (rule excluding_twice_no_hybrid) (rule find_single_solution_no_hybrid)

section \<open>The size of the clusters from round to round\<close>

lemma length_list_set_diff_ge:
  assumes "distinct xs0" "set xs0 \<subseteq> set xs"
  shows "length xs0 \<le> length (list_set_diff xs ys) + length (remdups ys)"
proof -
  have "length xs0 = card (set xs0)"
    using assms(1) by (simp add: distinct_card)
  also have "\<dots> \<le> card ((set xs - set ys) \<union> set ys)"
    using assms(2) by (intro card_mono) auto
  also have "\<dots> \<le> card (set xs - set ys) + card (set ys)"
    by (rule card_Un_le)
  also have "card (set xs - set ys) = length (list_set_diff xs ys)"
    by (simp add: distinct_card[OF distinct_list_set_diff, symmetric] set_list_set_diff)
  also have "card (set ys) = length (remdups ys)"
    by (simp add: length_remdups_card_conv)
  finally show ?thesis .
qed

text \<open>
  C5, as the claim states it: \<open>|R| + |B|\<close> never decreases from one growth round to the
  next.  It fails on a graph with six nodes for the candidate pair (1, 2): the first round
  gives \<open>([1, 3, 6], [2, 5])\<close>, five nodes; the second round adds 4, which gives 3 and 6
  an edge into their own cluster beside their edge to 2, so the conflict removal deletes
  both and leaves \<open>([1, 4], [2, 5])\<close>, four nodes.  These are the two rounds that
  \<open>find_single_solution\<close> runs.
\<close>

theorem size_drops_on_fan6:
  "(1, 2) \<in> set (create_table fan6) \<and>
   unique_sucsessors fan6 ([1], [2]) = ([1, 3, 6], [2, 5]) \<and>
   unique_sucsessors fan6 ([1, 3, 6], [2, 5]) = ([1, 4], [2, 5]) \<and>
   grow_loop fan6 ([1], [2]) 0 0 1 0 = (([1, 4], [2, 5]), 2) \<and>
   \<not> length (fst (unique_sucsessors fan6 ([1], [2])))
         + length (snd (unique_sucsessors fan6 ([1], [2])))
       \<le> length (fst (unique_sucsessors fan6 (unique_sucsessors fan6 ([1], [2]))))
         + length (snd (unique_sucsessors fan6 (unique_sucsessors fan6 ([1], [2]))))"
  by (simp add: eval_defs fan6_def del: scan_row.simps)

text \<open>
  C5, amended: a growth round applied to duplicate-free clusters lowers \<open>|R| + |B|\<close> by
  no more than the number of nodes its conflict removal deletes (the distinct members of
  \<open>temp[0]\<close> and \<open>temp[1]\<close>); in particular \<open>|R| + |B|\<close> does not decrease in a round
  whose conflict removal deletes nothing.
\<close>

theorem growth_step_size:
  assumes "distinct (fst info)" and "distinct (snd info)"
  shows "length (fst info) + length (snd info)
           \<le> length (fst (unique_sucsessors G info)) + length (snd (unique_sucsessors G info))
             + length (remdups (conflict_nodes G (add_unique G info) 0))
             + length (remdups (conflict_nodes G (add_unique G info) 1))"
proof -
  let ?i1 = "add_unique G info"
  have s0: "set (fst info) \<subseteq> set (fst ?i1)" and s1: "set (snd info) \<subseteq> set (snd ?i1)"
    by (auto simp: add_unique_def Let_def)
  have "length (fst info)
          \<le> length (list_set_diff (fst ?i1) (remdups (conflict_nodes G ?i1 0)))
            + length (remdups (remdups (conflict_nodes G ?i1 0)))"
    by (rule length_list_set_diff_ge[OF assms(1) s0])
  moreover have "length (snd info)
          \<le> length (list_set_diff (snd ?i1) (remdups (conflict_nodes G ?i1 1)))
            + length (remdups (remdups (conflict_nodes G ?i1 1)))"
    by (rule length_list_set_diff_ge[OF assms(2) s1])
  ultimately show ?thesis
    by (simp add: unique_sucsessors_def Let_def remdups_remdups)
qed

theorem growth_step_size_witness:
  "distinct (fst ([1::nat], [2::nat])) \<and> distinct (snd ([1::nat], [2::nat])) \<and>
   length (fst ([1::nat], [2::nat])) + length (snd ([1::nat], [2::nat]))
     \<le> length (fst (unique_sucsessors chain3 ([1], [2])))
       + length (snd (unique_sucsessors chain3 ([1], [2])))
       + length (remdups (conflict_nodes chain3 (add_unique chain3 ([1], [2])) 0))
       + length (remdups (conflict_nodes chain3 (add_unique chain3 ([1], [2])) 1))"
  using growth_step_size[of "([1], [2])" chain3] by simp

section \<open>Facts about the float model\<close>

lemma round_half_even_error: "\<bar>of_int (round_half_even y) - y\<bar> \<le> 1 / 2"
proof -
  have "of_int \<lfloor>y\<rfloor> \<le> y" "y < of_int \<lfloor>y\<rfloor> + 1"
    by linarith+
  then show ?thesis
    by (auto simp: round_half_even_def Let_def abs_le_iff)
qed

lemma round_half_even_of_int: "round_half_even (of_int j) = j"
  by (simp add: round_half_even_def)

lemma bitlen_pos: "0 < n \<Longrightarrow> 1 \<le> bitlen n"
  using bitlen_eq_zero_iff[of n] bitlen_nonneg[of n] by linarith

lemma expo_le:
  assumes "0 < x"
  shows "2 powi (expo x) \<le> x"
proof (cases "1 \<le> x")
  case True
  let ?n = "\<lfloor>x\<rfloor>"
  have n: "0 < ?n" using True by simp
  have b: "1 \<le> bitlen ?n" by (rule bitlen_pos[OF n])
  have "(2::int) ^ nat (bitlen ?n - 1) \<le> ?n"
    using bitlen_bounds[OF n] by simp
  then have "(of_int ((2::int) ^ nat (bitlen ?n - 1)) :: rat) \<le> of_int ?n"
    by (simp only: of_int_le_iff)
  also have "\<dots> \<le> x" by simp
  finally have "(2::rat) ^ nat (bitlen ?n - 1) \<le> x" by simp
  moreover have "(2::rat) powi (bitlen ?n - 1) = 2 ^ nat (bitlen ?n - 1)"
    using b by (simp add: power_int_def)
  ultimately show ?thesis using True by (simp add: expo_def)
next
  case False
  let ?y = "1 / x"
  let ?c = "- \<lfloor>- ?y\<rfloor>"
  have y: "1 < ?y" using False assms by simp
  have c: "?c = \<lceil>?y\<rceil>" by (simp add: ceiling_def)
  have "?y \<le> of_int ?c" unfolding c by simp
  then have c2: "2 \<le> ?c" using y by linarith
  then have c1: "0 < ?c - 1" by simp
  let ?k = "bitlen (?c - 1)"
  have k: "1 \<le> ?k" by (rule bitlen_pos[OF c1])
  have "?c - 1 < 2 ^ nat ?k" using bitlen_bounds[OF c1] by simp
  then have "?c \<le> 2 ^ nat ?k" by simp
  then have "(of_int ?c :: rat) \<le> of_int (2 ^ nat ?k)"
    by (simp only: of_int_le_iff)
  then have "?y \<le> 2 ^ nat ?k"
    using \<open>?y \<le> of_int ?c\<close> by simp
  then have "1 \<le> x * 2 ^ nat ?k"
    using assms by (simp add: field_simps)
  then have "1 / 2 ^ nat ?k \<le> x"
    by (simp add: field_simps)
  moreover have "(2::rat) powi (- ?k) = 1 / 2 ^ nat ?k"
    using k by (simp add: power_int_def field_simps)
  ultimately show ?thesis using False by (simp add: expo_def)
qed

lemma expo_upper:
  assumes "0 < x"
  shows "x < 2 powi (expo x + 1)"
proof (cases "1 \<le> x")
  case True
  let ?n = "\<lfloor>x\<rfloor>"
  have n: "0 < ?n" using True by simp
  have b: "1 \<le> bitlen ?n" by (rule bitlen_pos[OF n])
  have "?n < 2 ^ nat (bitlen ?n)" using bitlen_bounds[OF n] by simp
  then have "?n + 1 \<le> 2 ^ nat (bitlen ?n)" by simp
  then have "(of_int (?n + 1) :: rat) \<le> of_int (2 ^ nat (bitlen ?n))"
    by (simp only: of_int_le_iff)
  moreover have "x < of_int (?n + 1)" by linarith
  ultimately have "x < 2 ^ nat (bitlen ?n)" by simp
  moreover have "(2::rat) powi (bitlen ?n - 1 + 1) = 2 ^ nat (bitlen ?n)"
    using b by (simp add: power_int_def)
  ultimately show ?thesis using True by (simp add: expo_def)
next
  case False
  let ?y = "1 / x"
  let ?c = "- \<lfloor>- ?y\<rfloor>"
  have y: "1 < ?y" using False assms by simp
  have c: "?c = \<lceil>?y\<rceil>" by (simp add: ceiling_def)
  have up: "?y \<le> of_int ?c" unfolding c by simp
  have lo: "of_int ?c - 1 < ?y" unfolding c using ceiling_correct[of ?y] by simp
  have c2: "2 \<le> ?c" using y up by linarith
  then have c1: "0 < ?c - 1" by simp
  let ?k = "bitlen (?c - 1)"
  have k: "1 \<le> ?k" by (rule bitlen_pos[OF c1])
  have "2 ^ nat (?k - 1) \<le> ?c - 1" using bitlen_bounds[OF c1] by simp
  then have "(of_int (2 ^ nat (?k - 1)) :: rat) \<le> of_int (?c - 1)"
    by (simp only: of_int_le_iff)
  then have "(2::rat) ^ nat (?k - 1) < ?y" using lo by simp
  then have "x * 2 ^ nat (?k - 1) < 1"
    using assms by (simp add: field_simps)
  then have "x < 1 / 2 ^ nat (?k - 1)"
    by (simp add: field_simps)
  moreover have "(2::rat) powi (- ?k + 1) = 1 / 2 ^ nat (?k - 1)"
  proof -
    have "(2::rat) powi (- ?k + 1) = 2 powi (- (?k - 1))" by simp
    also have "\<dots> = inverse (2 powi (?k - 1))" by (rule power_int_minus)
    also have "\<dots> = 1 / 2 ^ nat (?k - 1)" using k by (simp add: power_int_def field_simps)
    finally show ?thesis .
  qed
  ultimately show ?thesis using False by (simp add: expo_def)
qed

lemma fl_error: "\<bar>fl x - x\<bar> \<le> \<bar>x\<bar> / 2 ^ 53"
proof (cases "x = 0")
  case True
  then show ?thesis by (simp add: fl_def)
next
  case False
  let ?a = "\<bar>x\<bar>"
  let ?e = "expo ?a"
  let ?s = "(2::rat) powi (?e - 52)"
  let ?m = "round_half_even (?a / ?s)"
  have a: "0 < ?a" using False by simp
  have s: "0 < ?s" by simp
  have fl: "fl x = sgn x * of_int ?m * ?s"
    using False by (simp add: fl_def Let_def)
  have x: "x = sgn x * ?a" by (simp add: mult_sgn_abs)
  have "fl x - x = sgn x * (of_int ?m * ?s - ?a)"
    by (subst (2) x) (simp add: fl algebra_simps)
  then have "\<bar>fl x - x\<bar> = \<bar>of_int ?m * ?s - ?a\<bar>"
    using False by (simp add: abs_mult abs_sgn_eq)
  also have "of_int ?m * ?s - ?a = (of_int ?m - ?a / ?s) * ?s"
    using s by (simp add: field_simps)
  also have "\<bar>\<dots>\<bar> = \<bar>of_int ?m - ?a / ?s\<bar> * ?s"
    using s by (simp add: abs_mult)
  also have "\<dots> \<le> 1 / 2 * ?s"
    using round_half_even_error[of "?a / ?s"] s by (intro mult_right_mono) simp_all
  finally have bound: "\<bar>fl x - x\<bar> \<le> 1 / 2 * ?s" .
  have "?s = 2 powi ?e / 2 ^ 52"
    by (subst power_int_diff) simp_all
  then have "1 / 2 * ?s = 2 powi ?e / 2 ^ 53"
    by simp
  also have "\<dots> \<le> ?a / 2 ^ 53"
    using expo_le[OF a] by (simp add: divide_right_mono)
  finally show ?thesis using bound by linarith
qed

lemma fl_of_int:
  assumes "\<bar>k\<bar> < 2 ^ 53"
  shows "fl (of_int k) = of_int k"
proof (cases "k = 0")
  case True
  then show ?thesis by (simp add: fl_def)
next
  case False
  let ?n = "\<bar>k\<bar>"
  have n: "0 < ?n" using False by simp
  have abs: "\<bar>of_int k :: rat\<bar> = of_int ?n" by simp
  have "1 \<le> ?n" using n by simp
  then have one: "(1::rat) \<le> of_int ?n"
    by (simp only: of_int_1_le_iff)
  have e: "expo (of_int ?n) = bitlen ?n - 1"
    unfolding expo_def using one by (simp only: if_True floor_of_int)
  have b1: "1 \<le> bitlen ?n" by (rule bitlen_pos[OF n])
  have b53: "bitlen ?n \<le> 53"
    using assms n by (simp add: bitlen_le_iff_power)
  define t where "t = nat (53 - bitlen ?n)"
  have s: "(2::rat) powi (bitlen ?n - 1 - 52) = 1 / 2 ^ t"
    using b53 by (simp add: power_int_def t_def field_simps nat_diff_distrib)
  have "of_int ?n / (1 / 2 ^ t) = (of_int (?n * 2 ^ t) :: rat)"
    by simp
  then have m: "round_half_even (of_int ?n / (1 / 2 ^ t)) = ?n * 2 ^ t"
    by (simp only: round_half_even_of_int)
  have "fl (of_int k) = sgn (of_int k) * of_int (?n * 2 ^ t) * (1 / 2 ^ t)"
    using False by (simp only: fl_def Let_def abs e s m) simp
  also have "\<dots> = sgn (of_int k) * of_int ?n"
    by simp
  also have "\<dots> = of_int k"
    by (simp only: abs[symmetric] mult_sgn_abs)
  finally show ?thesis .
qed

lemma fl_pos: "0 < x \<Longrightarrow> 0 < fl x"
proof -
  assume x: "0 < x"
  have h: "x / 2 ^ 53 < x" using x by (simp add: field_simps)
  have "\<bar>fl x - x\<bar> \<le> x / 2 ^ 53" using fl_error[of x] x by simp
  then have "x - fl x \<le> x / 2 ^ 53" by linarith
  then show ?thesis using h by linarith
qed

lemma float_of_int_exact: "\<bar>k\<bar> < 2 ^ 53 \<Longrightarrow> float_of_int k = of_int k"
  by (simp add: float_of_int_def fl_of_int)

lemma fadd_int: "\<bar>i + j\<bar> < 2 ^ 53 \<Longrightarrow> fadd (of_int i) (of_int j) = of_int (i + j)"
  using fl_of_int[of "i + j"] by (simp add: fadd_def)

lemma fsub_int: "\<bar>i - j\<bar> < 2 ^ 53 \<Longrightarrow> fsub (of_int i) (of_int j) = of_int (i - j)"
  using fl_of_int[of "i - j"] by (simp add: fsub_def)

lemma fmul_int: "\<bar>i * j\<bar> < 2 ^ 53 \<Longrightarrow> fmul (of_int i) (of_int j) = of_int (i * j)"
  using fl_of_int[of "i * j"] by (simp add: fmul_def)

lemma prod_bound:
  fixes i j :: int
  assumes "\<bar>i\<bar> \<le> 2 ^ 24" "\<bar>j\<bar> \<le> 2 ^ 24"
  shows "\<bar>i * j\<bar> \<le> 2 ^ 48"
proof -
  have "\<bar>i\<bar> * \<bar>j\<bar> \<le> 2 ^ 24 * 2 ^ 24"
    using assms by (intro mult_mono) simp_all
  then show ?thesis by (simp add: abs_mult)
qed

lemma p_after_exact:
  fixes N R B :: int
  assumes "0 \<le> R" "R \<le> N" "0 \<le> B" "B \<le> N" "N < 2 ^ 24"
  shows "p_after_of (nat N) (of_int R) (of_int B) = of_int (N * N - 2 * R * B)"
proof -
  let ?a = "N - R - B"
  have N: "\<bar>N\<bar> \<le> 2 ^ 24" "\<bar>R\<bar> \<le> 2 ^ 24" "\<bar>B\<bar> \<le> 2 ^ 24" "\<bar>?a\<bar> \<le> 2 ^ 24"
    "\<bar>N - R\<bar> \<le> 2 ^ 24" "\<bar>N - B\<bar> \<le> 2 ^ 24"
    using assms by simp_all
  have f0: "float_of_int (int (nat N)) = of_int N"
    using assms by (simp add: float_of_int_exact)
  have f1: "fsub (of_int N) (of_int R) = of_int (N - R)"
    using N by (intro fsub_int) simp
  have f2: "fsub (of_int (N - R)) (of_int B) = of_int ?a"
    using N by (intro fsub_int) simp
  have f3: "fadd (of_int R) (of_int ?a) = of_int (N - B)"
    using fadd_int[of R ?a] N by simp
  have f4: "fadd (of_int B) (of_int ?a) = of_int (N - R)"
    using fadd_int[of B ?a] N by simp
  have p1: "\<bar>R * (N - B)\<bar> \<le> 2 ^ 48" by (rule prod_bound) (use N in simp_all)
  have p2: "\<bar>B * (N - R)\<bar> \<le> 2 ^ 48" by (rule prod_bound) (use N in simp_all)
  have p3: "\<bar>N * ?a\<bar> \<le> 2 ^ 48" by (rule prod_bound) (use N in simp_all)
  have f5: "fmul (of_int R) (of_int (N - B)) = of_int (R * (N - B))"
    using p1 by (intro fmul_int) simp
  have f6: "fmul (of_int B) (of_int (N - R)) = of_int (B * (N - R))"
    using p2 by (intro fmul_int) simp
  have f7: "fmul (of_int N) (of_int ?a) = of_int (N * ?a)"
    using p3 by (intro fmul_int) simp
  have f8: "fadd (of_int (R * (N - B))) (of_int (B * (N - R))) = of_int (R * (N - B) + B * (N - R))"
    using p1 p2 by (intro fadd_int) simp
  have f9: "fadd (of_int (R * (N - B) + B * (N - R))) (of_int (N * ?a))
              = of_int (R * (N - B) + B * (N - R) + N * ?a)"
    using p1 p2 p3 by (intro fadd_int) simp
  have "p_after_of (nat N) (of_int R) (of_int B) = of_int (R * (N - B) + B * (N - R) + N * ?a)"
    by (simp only: p_after_of_def Let_def f0 f1 f2 f3 f4 f5 f6 f7 f8 f9)
  also have "R * (N - B) + B * (N - R) + N * ?a = N * N - 2 * R * B"
    by (simp add: algebra_simps)
  finally show ?thesis .
qed


lemma p_eff_bounds:
  fixes N R B :: int
  assumes "0 \<le> R" "R \<le> N" "0 \<le> B" "B \<le> N" "0 < N" "N < 2 ^ 24"
  shows "\<bar>p_eff_of (of_int (N * N - 2 * R * B)) (N * N) - 200 * of_int R * of_int B / (of_int N * of_int N)\<bar>
           \<le> 1 / 2 ^ 43"
    and "1 \<le> R \<Longrightarrow> 1 \<le> B \<Longrightarrow> 0 < p_eff_of (of_int (N * N - 2 * R * B)) (N * N)"
proof -
  define u :: rat where "u = 1 / 2 ^ 53"
  define n2 :: rat where "n2 = of_int N * of_int N"
  define d :: rat where "d = 2 * of_int R * of_int B / n2"
  define q :: rat where "q = of_int (N * N - 2 * R * B) / n2"
  define qh where "qh = fl q"
  define sh where "sh = fl (1 - qh)"
  define ph where "ph = fl (100 * sh)"
  have n2pos: "0 < n2" using assms by (simp add: n2_def)
  have NN: "\<bar>N * N\<bar> \<le> 2 ^ 48"
    by (rule prod_bound) (use assms in simp_all)
  have fb: "float_of_int (N * N) = n2"
    using NN by (simp add: float_of_int_exact n2_def)
  have ph: "p_eff_of (of_int (N * N - 2 * R * B)) (N * N) = ph"
    by (simp add: p_eff_of_def fmul_def fsub_def fdiv_def fb ph_def sh_def qh_def q_def)
  have "q = (n2 - 2 * of_int R * of_int B) / n2"
    by (simp add: q_def n2_def)
  also have "\<dots> = n2 / n2 - d"
    by (simp add: diff_divide_distrib d_def)
  finally have q: "q = 1 - d"
    using n2pos by simp
  have "of_int R * of_int B \<le> (of_int N * of_int N :: rat)"
    using assms by (intro mult_mono) simp_all
  then have d1: "d \<le> 2"
    using n2pos by (simp add: d_def n2_def field_simps)
  have d0: "0 \<le> d"
    using assms n2pos by (simp add: d_def)
  have qabs: "\<bar>q\<bar> \<le> 1" using d0 d1 q by (simp add: abs_le_iff)
  have e1: "\<bar>qh - q\<bar> \<le> u"
  proof -
    have "\<bar>qh - q\<bar> \<le> \<bar>q\<bar> / 2 ^ 53" unfolding qh_def by (rule fl_error)
    also have "\<dots> \<le> 1 / 2 ^ 53" using qabs by (simp add: divide_right_mono)
    finally show ?thesis by (simp add: u_def)
  qed
  have upos: "0 < u" "u \<le> 1" by (simp_all add: u_def)
  have s1: "\<bar>1 - qh\<bar> \<le> 3" using e1 qabs upos by (simp add: abs_le_iff)
  have e2: "\<bar>sh - (1 - qh)\<bar> \<le> 3 * u"
  proof -
    have "\<bar>sh - (1 - qh)\<bar> \<le> \<bar>1 - qh\<bar> / 2 ^ 53" unfolding sh_def by (rule fl_error)
    also have "\<dots> \<le> 3 / 2 ^ 53" using s1 by (simp add: divide_right_mono)
    finally show ?thesis by (simp add: u_def)
  qed
  have s2: "\<bar>sh\<bar> \<le> 6" using e2 s1 upos by (simp add: abs_le_iff)
  have e3: "\<bar>ph - 100 * sh\<bar> \<le> 600 * u"
  proof -
    have "\<bar>ph - 100 * sh\<bar> \<le> \<bar>100 * sh\<bar> / 2 ^ 53" unfolding ph_def by (rule fl_error)
    also have "\<dots> \<le> 600 / 2 ^ 53" using s2 by (simp add: divide_right_mono abs_mult)
    finally show ?thesis by (simp add: u_def)
  qed
  have "ph - 100 * d = (ph - 100 * sh) + 100 * (sh - (1 - qh)) - 100 * (qh - q)"
    by (simp add: q algebra_simps)
  then have "\<bar>ph - 100 * d\<bar> \<le> 600 * u + 100 * (3 * u) + 100 * u"
    using e1 e2 e3 by (simp add: abs_le_iff)
  also have "\<dots> \<le> 1 / 2 ^ 43" by (simp add: u_def)
  finally have "\<bar>ph - 100 * d\<bar> \<le> 1 / 2 ^ 43" .
  moreover have "100 * d = 200 * of_int R * of_int B / (of_int N * of_int N)"
    by (simp add: d_def n2_def)
  ultimately show "\<bar>p_eff_of (of_int (N * N - 2 * R * B)) (N * N) - 200 * of_int R * of_int B / (of_int N * of_int N)\<bar>
           \<le> 1 / 2 ^ 43"
    by (simp only: ph)
  show "0 < p_eff_of (of_int (N * N - 2 * R * B)) (N * N)" if "1 \<le> R" "1 \<le> B"
  proof -
    have "(1::rat) * 1 \<le> of_int R * of_int B"
      by (intro mult_mono) (use that in simp_all)
    then have "(1::rat) \<le> of_int R * of_int B" by simp
    then have "2 / n2 \<le> d"
      using n2pos by (simp add: d_def divide_right_mono)
    moreover have "n2 < 2 ^ 48 + 1"
    proof -
      have "N * N < 2 ^ 48 + 1" using NN by simp
      then have "(of_int (N * N) :: rat) < of_int (2 ^ 48 + 1)" by (simp only: of_int_less_iff)
      then show ?thesis by (simp add: n2_def)
    qed
    then have "1 / 2 ^ 48 < 2 / n2"
      using n2pos by (simp add: field_simps)
    ultimately have "u < d" using upos by (simp add: u_def)
    then have "0 < 1 - qh" using e1 q by (simp add: abs_le_iff)
    then have "0 < sh" unfolding sh_def by (rule fl_pos)
    then have "0 < 100 * sh" by simp
    then have "0 < ph" unfolding ph_def by (rule fl_pos)
    then show ?thesis by (simp only: ph)
  qed
qed

section \<open>Evaluating floats, strings and the search on concrete inputs\<close>

lemma bitlen_eval: "bitlen (numeral k) = bitlen (numeral k div 2) + 1"
  by (subst compute_bitlen) simp

lemma bitlen_1: "bitlen 1 = 1"
  by (subst compute_bitlen) simp

lemma floor_neg_frac: "\<lfloor>- (numeral a / numeral b :: rat)\<rfloor> = (- numeral a) div numeral b"
  using floor_divide_of_int_eq[of "- numeral a" "numeral b", where ?'a = rat] by simp

lemma floor_frac: "\<lfloor>numeral a / numeral b :: rat\<rfloor> = numeral a div numeral b"
  using floor_divide_of_int_eq[of "numeral a" "numeral b", where ?'a = rat] by simp

lemmas fl_eval = fl_def expo_def round_half_even_def bitlen_eval bitlen_1 floor_neg_frac
  floor_frac Let_def float_of_int_def fadd_def fsub_def fmul_def fdiv_def py_round2_def
  py_trunc_def

lemmas py_int_eval = py_int_str_def strip_def is_space_def is_digit_def digits_value_def
  digit_value_def Let_def

lemmas search_eval = find_clusters_def loop_body_def grow_candidate_def score_def
  p_after_of_def p_eff_of_def select_def select_power_def select_size_def report_def
  initial_search_def number_of_nodes_def

section \<open>An unusable parameter string\<close>

lemma create_table_nonempty: "create_table G \<noteq> [] \<Longrightarrow> number_of_nodes G \<noteq> 0"
  by (auto simp: create_table_def number_of_nodes_def)

lemma select_invalid:
  assumes "parameter \<noteq> ''max''" "py_int_str parameter = None"
    and "criterion = ''power'' \<or> criterion = ''size''"
  shows "select criterion parameter st key1 key2 temp length1 length2 p_eff = Inl ValueError"
  using assms by (auto simp: select_def select_power_def select_size_def)

lemma loop_body_invalid:
  assumes "parameter \<noteq> ''max''" "py_int_str parameter = None"
    and "criterion = ''power'' \<or> criterion = ''size''" and "p_before \<noteq> 0"
  shows "loop_body G criterion parameter exclude_inter nodes p_before st origin = Inl ValueError"
  using assms(4) by (simp add: loop_body_def score_def Let_def select_invalid[OF assms(1-3)])

text \<open>
  C3, as the claim states it: with a parameter string that is neither \<open>"max"\<close> nor
  accepted by \<open>int()\<close>, a threshold mode fails before any search work begins.
  \<open>find_clusters\<close> has no check of its configuration; \<open>int(parameter)\<close> is evaluated
  inside the loop, for each candidate.  On a graph without candidate pairs (three nodes,
  every two of them adjacent) the loop body never runs and the call returns the empty
  result instead of failing.
\<close>

theorem no_error_without_candidates:
  "''abc'' \<noteq> ''max'' \<and> py_int_str ''abc'' = None \<and> create_table triangle3 = [] \<and>
   find_clusters triangle3 ''power'' ''abc'' False = Inr (([], []), [])"
  by (simp add: py_int_eval find_clusters_def initial_search_def eval_defs triangle3_def)

text \<open>
  C3, amended: with criterion \<open>"power"\<close> or \<open>"size"\<close> and a parameter string that
  is neither \<open>"max"\<close> nor accepted by \<open>int()\<close>, \<open>find_clusters\<close> fails with the
  conversion error (\<open>ValueError\<close>) exactly when the graph has at least one candidate
  pair; when there is no candidate pair it returns the empty cluster pair and the empty
  info list without an error.
\<close>

theorem invalid_parameter_fails_iff_candidate_exists:
  assumes "parameter \<noteq> ''max''" and "py_int_str parameter = None"
    and "criterion = ''power'' \<or> criterion = ''size''"
  shows "find_clusters G criterion parameter exclude_inter =
           (if create_table G = [] then Inr (([], []), []) else Inl ValueError)"
proof (cases "create_table G")
  case Nil
  then show ?thesis by (simp add: find_clusters_def initial_search_def)
next
  case (Cons origin rest)
  then have "number_of_nodes G \<noteq> 0"
    using create_table_nonempty[of G] by simp
  then have "int (number_of_nodes G) * int (number_of_nodes G) \<noteq> 0" by simp
  then show ?thesis
    using Cons by (simp add: find_clusters_def Let_def loop_body_invalid[OF assms])
qed

theorem invalid_parameter_fails_iff_candidate_exists_witness:
  "''abc'' \<noteq> ''max'' \<and> py_int_str ''abc'' = None \<and> create_table chain3 = [(1, 2)] \<and>
   find_clusters chain3 ''power'' ''abc'' False = Inl ValueError"
proof -
  have h1: "''abc'' \<noteq> ''max''" by simp
  have h2: "py_int_str ''abc'' = None" by (simp add: py_int_eval)
  have h3: "create_table chain3 = [(1, 2)]" by (simp add: eval_defs chain3_def)
  show ?thesis
    using invalid_parameter_fails_iff_candidate_exists[OF h1 h2, of "''power''" chain3 False] h1 h2 h3
    by simp
qed

section \<open>The score\<close>

lemma float_of_int_small: "float_of_int 3 = 3" "float_of_int 10 = 10" "float_of_int 100 = 100"
  by (simp_all add: float_of_int_exact[of 3, simplified] float_of_int_exact[of 10, simplified]
      float_of_int_exact[of 100, simplified])

lemma p_after_10_3_3: "p_after_of 10 3 3 = 82"
  using p_after_exact[of 3 10 3] by simp

lemma p_eff_82_100: "p_eff_of 82 100 = 18 + 1 / 2 ^ 48"
proof -
  have q: "fdiv 82 100 = 7385903388887613 / 2 ^ 53"
    by (simp add: fl_eval)
  have s: "fsub 1 (7385903388887613 / 2 ^ 53) = 1621295865853379 / 2 ^ 53"
    by (simp add: fl_eval)
  have p: "fmul 100 (1621295865853379 / 2 ^ 53) = 18 + 1 / 2 ^ 48"
    by (simp add: fl_eval)
  show ?thesis
    by (simp only: p_eff_of_def float_of_int_small q s p)
qed

text \<open>
  C6, as the claim states it: the search computes the score by the three formulas, and
  for \<open>nodes = 10\<close>, \<open>r = 3\<close>, \<open>b = 3\<close> it computes \<open>p_after = 82\<close> and
  \<open>power = 18.0\<close>.  The formulas are those of lines 215 to 219 and \<open>p_after\<close> is 82,
  but they are evaluated in floats: 82/100 is rounded, so is its difference from 1, and
  the product with 100 is the float next above 18, which Python prints as
  18.000000000000004.  Only the value written into the report, \<open>round(p_eff, 2)\<close>, is 18.
\<close>

theorem power_at_10_3_3_is_not_18:
  "score 10 (10 * 10) ([1, 2, 3 :: nat], [4, 5, 6 :: nat]) = Inr (3, 3, 82, 18 + 1 / 2 ^ 48) \<and>
   (18 + 1 / 2 ^ 48 :: rat) \<noteq> 18 \<and>
   py_round2 (18 + 1 / 2 ^ 48) = 18"
proof -
  have "py_round2 (18 + 1 / 2 ^ 48) = 18"
    by (simp add: fl_eval)
  then show ?thesis
    by (simp add: score_def float_of_int_small p_after_10_3_3 p_eff_82_100)
qed

text \<open>
  C6, amended: for every candidate result on a graph with fewer than \<open>2\<^sup>2\<^sup>4\<close> nodes,
  with \<open>r = |R|\<close>, \<open>b = |B|\<close> (neither above \<open>nodes\<close>) and \<open>g = nodes - r - b\<close>, the
  search computes \<open>p_before = nodes\<^sup>2\<close> and \<open>p_after = r(r+g) + b(b+g) + nodes\<cdot>g\<close> exactly,
  and \<open>power\<close> is \<open>100(1 - p_after/p_before)\<close> evaluated in float arithmetic, which is
  within \<open>2\<^sup>-\<^sup>4\<^sup>3\<close> of the exact value of that formula; for \<open>nodes = 10\<close>,
  \<open>r = b = 3\<close> it computes \<open>p_after = 82\<close> and \<open>power = 18.000000000000004\<close>.
\<close>

theorem score_formula:
  fixes temp :: "'a info"
  assumes "0 < nodes" and "nodes < 2 ^ 24"
    and "length (fst temp) \<le> nodes" and "length (snd temp) \<le> nodes"
  defines "r \<equiv> int (length (fst temp))" and "b \<equiv> int (length (snd temp))"
  defines "g \<equiv> int nodes - r - b"
  defines "p_before \<equiv> int nodes * int nodes"
  defines "p_after \<equiv> r * (r + g) + b * (b + g) + int nodes * g"
  shows "\<exists>p_eff. score nodes p_before temp = Inr (of_int r, of_int b, of_int p_after, p_eff) \<and>
           \<bar>p_eff - 100 * (1 - of_int p_after / of_int p_before)\<bar> \<le> 1 / 2 ^ 43"
proof -
  let ?N = "int nodes"
  have N: "0 < ?N" "?N < 2 ^ 24" using assms(1,2) by simp_all
  have rb: "0 \<le> r" "r \<le> ?N" "0 \<le> b" "b \<le> ?N"
    using assms(3,4) by (simp_all add: r_def b_def)
  have pa: "p_after = ?N * ?N - 2 * r * b"
    by (simp add: p_after_def g_def algebra_simps)
  have fr: "float_of_int r = of_int r" "float_of_int b = of_int b"
    using rb N by (simp_all add: float_of_int_exact)
  have ex: "p_after_of nodes (of_int r) (of_int b) = of_int p_after"
    using p_after_exact[OF rb N(2)] by (simp add: pa)
  have pb: "p_before \<noteq> 0" using N by (simp add: p_before_def)
  have sc: "score nodes p_before temp
              = Inr (of_int r, of_int b, of_int p_after, p_eff_of (of_int p_after) p_before)"
    using pb fr ex by (simp add: score_def Let_def r_def b_def)
  have "100 * (1 - (of_int p_after :: rat) / of_int p_before)
          = 100 * (of_int p_before - of_int p_after) / of_int p_before"
    using pb by (simp add: field_simps)
  also have "(of_int p_before - of_int p_after :: rat) = 2 * of_int r * of_int b"
    by (simp add: pa p_before_def)
  finally have id: "100 * (1 - (of_int p_after :: rat) / of_int p_before)
          = 200 * of_int r * of_int b / (of_int ?N * of_int ?N)"
    by (simp add: p_before_def)
  have "\<bar>p_eff_of (of_int p_after) p_before - 100 * (1 - of_int p_after / of_int p_before)\<bar>
          \<le> 1 / 2 ^ 43"
    unfolding id unfolding pa p_before_def by (rule p_eff_bounds(1)[OF rb N])
  with sc show ?thesis by blast
qed

theorem score_formula_witness:
  "(0::nat) < 10 \<and> (10::nat) < 2 ^ 24 \<and>
   length (fst ([1, 2, 3 :: nat], [4, 5, 6 :: nat])) \<le> 10 \<and>
   length (snd ([1, 2, 3 :: nat], [4, 5, 6 :: nat])) \<le> 10 \<and>
   (\<exists>p_eff. score 10 100 ([1, 2, 3 :: nat], [4, 5, 6 :: nat]) = Inr (3, 3, 82, p_eff) \<and>
      \<bar>p_eff - 18\<bar> \<le> 1 / 2 ^ 43)"
proof -
  have h: "(0::nat) < 10" "(10::nat) < 2 ^ 24"
    "length (fst ([1, 2, 3 :: nat], [4, 5, 6 :: nat])) \<le> 10"
    "length (snd ([1, 2, 3 :: nat], [4, 5, 6 :: nat])) \<le> 10"
    by simp_all
  show ?thesis
    using score_formula[OF h] h by simp
qed

section \<open>The power saving and the initial maximum\<close>

lemma py_int_str_max: "py_int_str ''max'' = None"
  by (simp add: py_int_eval)

lemma py_int_str_not_max: "py_int_str parameter = Some N \<Longrightarrow> parameter \<noteq> ''max''"
  using py_int_str_max by auto

text \<open>
  C10, as the claim states it: the computed power saving is exactly \<open>200\<cdot>r\<cdot>b/nodes\<^sup>2\<close>.
  The identity holds for the formula over the rationals, but the code evaluates the
  formula in floats: for \<open>nodes = 10\<close>, \<open>r = b = 3\<close> the result is the float next above
  18, while \<open>200\<cdot>3\<cdot>3/10\<^sup>2\<close> is 18.
\<close>

theorem power_identity_is_not_exact:
  "p_eff_of (p_after_of 10 (float_of_int 3) (float_of_int 3)) (10 * 10) \<noteq> 200 * 3 * 3 / (10 * 10)"
  by (simp add: float_of_int_small p_after_10_3_3 p_eff_82_100)

text \<open>
  C10, amended: for every candidate result on a graph with fewer than \<open>2\<^sup>2\<^sup>4\<close> nodes,
  with \<open>r = len(temp[0])\<close> and \<open>b = len(temp[1])\<close> at most \<open>nodes\<close>, the computed power
  saving is within \<open>2\<^sup>-\<^sup>4\<^sup>3\<close> of \<open>200\<cdot>r\<cdot>b/nodes\<^sup>2\<close>; consequently it is positive whenever
  \<open>r \<ge> 1\<close> and \<open>b \<ge> 1\<close>, so from the initial state with \<open>p_eff_max = 0.0\<close> such a
  candidate is accepted in max mode, and in both threshold modes a candidate that passes
  the threshold sets the best cluster.
\<close>

theorem power_near_identity_and_positive:
  fixes temp :: "'a info"
  assumes "0 < nodes" and "nodes < 2 ^ 24"
    and "length (fst temp) \<le> nodes" and "length (snd temp) \<le> nodes"
  defines "r \<equiv> length (fst temp)" and "b \<equiv> length (snd temp)"
  defines "length1 \<equiv> float_of_int (int r)" and "length2 \<equiv> float_of_int (int b)"
  defines "p_eff \<equiv> p_eff_of (p_after_of nodes length1 length2) (int nodes * int nodes)"
  shows "\<bar>p_eff - 200 * of_nat r * of_nat b / (of_nat nodes * of_nat nodes)\<bar> \<le> 1 / 2 ^ 43 \<and>
         (1 \<le> r \<and> 1 \<le> b \<longrightarrow>
            0 < p_eff \<and>
            (\<exists>st. select ''power'' ''max'' initial_search key1 key2 temp length1 length2 p_eff = Inr st
                  \<and> cluster st = temp) \<and>
            (\<forall>parameter N. py_int_str parameter = Some N \<and> of_int N < p_eff \<longrightarrow>
               (\<exists>st. select ''power'' parameter initial_search key1 key2 temp length1 length2 p_eff
                       = Inr st \<and> cluster st = temp)) \<and>
            (\<forall>parameter N. py_int_str parameter = Some N \<and> of_int N < fadd length1 length2 \<longrightarrow>
               (\<exists>st. select ''size'' parameter initial_search key1 key2 temp length1 length2 p_eff
                       = Inr st \<and> cluster st = temp)))"
proof -
  let ?N = "int nodes" and ?R = "int r" and ?B = "int b"
  have N: "0 < ?N" "?N < 2 ^ 24" using assms(1,2) by simp_all
  have rb: "0 \<le> ?R" "?R \<le> ?N" "0 \<le> ?B" "?B \<le> ?N"
    using assms(3,4) by (simp_all add: r_def b_def)
  have l: "length1 = of_int ?R" "length2 = of_int ?B"
    using rb N by (simp_all add: length1_def length2_def float_of_int_exact)
  have pe: "p_eff = p_eff_of (of_int (?N * ?N - 2 * ?R * ?B)) (?N * ?N)"
    using p_after_exact[OF rb N(2)] by (simp add: p_eff_def l)
  have bound: "\<bar>p_eff - 200 * of_nat r * of_nat b / (of_nat nodes * of_nat nodes)\<bar> \<le> 1 / 2 ^ 43"
    using p_eff_bounds(1)[OF rb N] by (simp add: pe)
  have rest: "0 < p_eff \<and>
            (\<exists>st. select ''power'' ''max'' initial_search key1 key2 temp length1 length2 p_eff = Inr st
                  \<and> cluster st = temp) \<and>
            (\<forall>parameter N. py_int_str parameter = Some N \<and> of_int N < p_eff \<longrightarrow>
               (\<exists>st. select ''power'' parameter initial_search key1 key2 temp length1 length2 p_eff
                       = Inr st \<and> cluster st = temp)) \<and>
            (\<forall>parameter N. py_int_str parameter = Some N \<and> of_int N < fadd length1 length2 \<longrightarrow>
               (\<exists>st. select ''size'' parameter initial_search key1 key2 temp length1 length2 p_eff
                       = Inr st \<and> cluster st = temp))"
    if "1 \<le> r" "1 \<le> b"
  proof -
    have pos: "0 < p_eff"
      using p_eff_bounds(2)[OF rb N] that by (simp add: pe)
    have nz: "length1 \<noteq> 0" "length2 \<noteq> 0"
      using that by (simp_all add: l)
    have m: "\<exists>st. select ''power'' ''max'' initial_search key1 key2 temp length1 length2 p_eff = Inr st
                  \<and> cluster st = temp"
      using pos nz by (simp add: select_def select_power_def initial_search_def)
    have t1: "\<exists>st. select ''power'' parameter initial_search key1 key2 temp length1 length2 p_eff
                       = Inr st \<and> cluster st = temp"
      if "py_int_str parameter = Some N" "of_int N < p_eff" for parameter N
      using pos nz that py_int_str_not_max[OF that(1)]
      by (simp add: select_def select_power_def initial_search_def Let_def)
    have t2: "\<exists>st. select ''size'' parameter initial_search key1 key2 temp length1 length2 p_eff
                       = Inr st \<and> cluster st = temp"
      if "py_int_str parameter = Some N" "of_int N < fadd length1 length2" for parameter N
      using pos nz that py_int_str_not_max[OF that(1)]
      by (simp add: select_def select_size_def initial_search_def Let_def)
    show ?thesis using pos m t1 t2 by blast
  qed
  show ?thesis using bound rest by blast
qed

theorem power_near_identity_and_positive_witness:
  "(0::nat) < 10 \<and> (10::nat) < 2 ^ 24 \<and>
   length (fst ([1, 2, 3 :: nat], [4, 5, 6 :: nat])) \<le> 10 \<and>
   length (snd ([1, 2, 3 :: nat], [4, 5, 6 :: nat])) \<le> 10 \<and>
   \<bar>p_eff_of (p_after_of 10 (float_of_int 3) (float_of_int 3)) (10 * 10) - 18\<bar> \<le> 1 / 2 ^ 43 \<and>
   0 < p_eff_of (p_after_of 10 (float_of_int 3) (float_of_int 3)) (10 * 10)"
proof -
  have h: "(0::nat) < 10" "(10::nat) < 2 ^ 24"
    "length (fst ([1, 2, 3 :: nat], [4, 5, 6 :: nat])) \<le> 10"
    "length (snd ([1, 2, 3 :: nat], [4, 5, 6 :: nat])) \<le> 10"
    by simp_all
  show ?thesis
    using power_near_identity_and_positive[OF h, of 1 2] h by simp
qed

section \<open>Clusters stay inside the graph\<close>

lemma successors_in_nodes:
  "wf_graph G \<Longrightarrow> set (successors G key) \<subseteq> set (node_list G)"
  by (auto simp: wf_graph_def successors_def)

lemma add_unique_in_nodes:
  assumes "wf_graph G" "set (fst info) \<subseteq> set (node_list G)" "set (snd info) \<subseteq> set (node_list G)"
  shows "set (fst (add_unique G info)) \<subseteq> set (node_list G)"
    and "set (snd (add_unique G info)) \<subseteq> set (node_list G)"
  using assms successors_in_nodes[OF assms(1)]
  by (auto simp: add_unique_def Let_def set_list_set_diff)

lemma unique_sucsessors_in_nodes:
  assumes "wf_graph G" "set (fst info) \<subseteq> set (node_list G)" "set (snd info) \<subseteq> set (node_list G)"
  shows "set (fst (unique_sucsessors G info)) \<subseteq> set (node_list G)"
    and "set (snd (unique_sucsessors G info)) \<subseteq> set (node_list G)"
  using add_unique_in_nodes[OF assms]
  by (auto simp: set_unique_sucsessors_fst set_unique_sucsessors_snd)

lemma grow_loop_in_nodes:
  "wf_graph G \<Longrightarrow>
   set (fst info) \<subseteq> set (node_list G) \<Longrightarrow> set (snd info) \<subseteq> set (node_list G) \<Longrightarrow>
     set (fst (fst (grow_loop G info length1 length2 check n))) \<subseteq> set (node_list G) \<and>
     set (snd (fst (grow_loop G info length1 length2 check n))) \<subseteq> set (node_list G)"
proof (induction G info length1 length2 check n rule: grow_loop.induct)
  case (1 G info length1 length2 check n)
  show ?case
  proof (cases "0 < check")
    case False
    then show ?thesis using "1.prems" by (subst grow_loop.simps, subst (2) grow_loop.simps) simp
  next
    case True
    let ?info1 = "unique_sucsessors G info"
    let ?grew = "length1 < length (fst ?info1) \<or> length2 < length (snd ?info1)"
    let ?l1 = "if ?grew then length (fst ?info1) else length1"
    let ?l2 = "if ?grew then length (snd ?info1) else length2"
    let ?c1 = "if ?grew then check else check - 1"
    let ?c2 = "if n + 1 > 15 then ?c1 - 1 else ?c1"
    have step: "grow_loop G info length1 length2 check n = grow_loop G ?info1 ?l1 ?l2 ?c2 (n + 1)"
      using True by (subst grow_loop.simps) (simp add: Let_def)
    have wf: "wf_graph G" by (rule "1.prems"(1))
    have a: "set (fst ?info1) \<subseteq> set (node_list G)" "set (snd ?info1) \<subseteq> set (node_list G)"
      using unique_sucsessors_in_nodes[OF wf "1.prems"(2,3)] by simp_all
    show ?thesis
      unfolding step by (rule "1.IH"[OF True refl refl refl refl refl refl refl wf a])
  qed
qed

lemma table_rows_in: "origin \<in> set (table_rows G xs) \<Longrightarrow> fst origin \<in> set xs \<and> snd origin \<in> set xs"
  by (induction xs) auto

lemma length_le_nodes:
  assumes "distinct xs" "set xs \<subseteq> set (node_list G)"
  shows "length xs \<le> number_of_nodes G"
proof -
  have "length xs = card (set xs)" using assms(1) by (simp add: distinct_card)
  also have "\<dots> \<le> card (set (node_list G))" using assms(2) by (simp add: card_mono)
  also have "\<dots> \<le> length (node_list G)" by (rule card_length)
  finally show ?thesis by (simp add: number_of_nodes_def)
qed

lemma grow_candidate_bounded:
  assumes "wf_graph G" "origin \<in> set (create_table G)"
  shows "length (fst (grow_candidate G exclude_inter origin)) \<le> number_of_nodes G"
    and "length (snd (grow_candidate G exclude_inter origin)) \<le> number_of_nodes G"
proof -
  let ?t = "find_single_solution G ([fst origin], [snd origin])"
  have o: "fst origin \<in> set (node_list G)" "snd origin \<in> set (node_list G)"
    using table_rows_in[of origin G "node_list G"] assms(2) by (simp_all add: create_table_def)
  have sub: "set (fst ?t) \<subseteq> set (node_list G)" "set (snd ?t) \<subseteq> set (node_list G)"
    using grow_loop_in_nodes[OF assms(1), of "([fst origin], [snd origin])" 0 0 1 0] o
    by (simp_all add: find_single_solution_def)
  obtain info' where t: "?t = unique_sucsessors G info'"
    using grow_loop_last_round[of 1 G "([fst origin], [snd origin])" 0 0 0]
    by (auto simp: find_single_solution_def)
  have d: "distinct (fst ?t)" "distinct (snd ?t)"
    unfolding t by (rule distinct_unique_sucsessors)+
  let ?e = "excluding_inter_connections G ?t"
  have sube: "set (fst ?e) \<subseteq> set (node_list G)" "set (snd ?e) \<subseteq> set (node_list G)"
    using sub by (auto simp: set_excluding_fst set_excluding_snd)
  have "length (fst ?t) \<le> number_of_nodes G" "length (snd ?t) \<le> number_of_nodes G"
    "length (fst ?e) \<le> number_of_nodes G" "length (snd ?e) \<le> number_of_nodes G"
    using length_le_nodes[OF d(1) sub(1)] length_le_nodes[OF d(2) sub(2)]
      length_le_nodes[OF distinct_excluding(1) sube(1)]
      length_le_nodes[OF distinct_excluding(2) sube(2)]
    by simp_all
  then show "length (fst (grow_candidate G exclude_inter origin)) \<le> number_of_nodes G"
    and "length (snd (grow_candidate G exclude_inter origin)) \<le> number_of_nodes G"
    by (simp_all add: grow_candidate_def Let_def)
qed

section \<open>Lengths and power of a candidate\<close>

lemma float_of_nat_zero_iff: "float_of_int (int k) = 0 \<longleftrightarrow> k = 0"
proof (cases "k = 0")
  case True
  then show ?thesis by (simp add: float_of_int_def fl_def)
next
  case False
  then have "0 < fl (of_int (int k))" by (intro fl_pos) simp
  then show ?thesis using False by (simp add: float_of_int_def)
qed

lemma cand_lengths_nonzero:
  "cand_length1 G ex origin \<noteq> 0 \<and> cand_length2 G ex origin \<noteq> 0 \<longleftrightarrow> cand_valid G ex origin"
  by (simp add: cand_length1_def cand_length2_def cand_valid_def float_of_nat_zero_iff)

lemma cand_facts:
  assumes "wf_graph G" "length (node_list G) < 2 ^ 24" "origin \<in> set (create_table G)"
  shows "cand_length1 G ex origin = of_nat (length (fst (grow_candidate G ex origin)))"
    and "cand_length2 G ex origin = of_nat (length (snd (grow_candidate G ex origin)))"
    and "fadd (cand_length1 G ex origin) (cand_length2 G ex origin) = of_nat (cand_size G ex origin)"
    and "cand_valid G ex origin \<Longrightarrow> 0 < cand_power G ex origin"
proof -
  let ?N = "int (number_of_nodes G)"
  let ?R = "int (length (fst (grow_candidate G ex origin)))"
  let ?B = "int (length (snd (grow_candidate G ex origin)))"
  have N2: "?N < 2 ^ 24" using assms(2) by (simp add: number_of_nodes_def)
  have "create_table G \<noteq> []" using assms(3) by auto
  then have "number_of_nodes G \<noteq> 0"
    by (rule create_table_nonempty)
  then have N1: "0 < ?N" by simp
  have rb: "0 \<le> ?R" "?R \<le> ?N" "0 \<le> ?B" "?B \<le> ?N"
    using grow_candidate_bounded[OF assms(1,3), of ex] by simp_all
  show l1: "cand_length1 G ex origin = of_nat (length (fst (grow_candidate G ex origin)))"
    using rb N2 by (simp add: cand_length1_def float_of_int_exact)
  show l2: "cand_length2 G ex origin = of_nat (length (snd (grow_candidate G ex origin)))"
    using rb N2 by (simp add: cand_length2_def float_of_int_exact)
  have "fadd (of_int ?R) (of_int ?B) = of_int (?R + ?B)"
    using rb N2 by (intro fadd_int) simp
  then show "fadd (cand_length1 G ex origin) (cand_length2 G ex origin) = of_nat (cand_size G ex origin)"
    by (simp add: l1 l2 cand_size_def)
  show "0 < cand_power G ex origin" if "cand_valid G ex origin"
  proof -
    have v: "1 \<le> ?R" "1 \<le> ?B"
      using that by (simp_all add: cand_valid_def Suc_le_eq)
    have "cand_power G ex origin = p_eff_of (of_int (?N * ?N - 2 * ?R * ?B)) (?N * ?N)"
      using p_after_exact[OF rb N2] by (simp add: cand_power_def l1 l2)
    then show ?thesis using p_eff_bounds(2)[OF rb N1 N2 v] by simp
  qed
qed

section \<open>No candidate has an empty cluster\<close>










text \<open>
  What the selection does with a cluster pair that has an empty cluster, taken on its
  own: \<open>length1\<close>, \<open>length2\<close>, \<open>p_eff\<close> are what lines 215 to 219 compute from
  \<open>temp\<close>.  The tests \<open>length1 != 0 and length2 != 0\<close> leave the search state as it
  was; in the two threshold branches \<open>int(parameter)\<close> is evaluated before them.
\<close>

lemma select_on_empty_pair:
  assumes "fst temp = [] \<or> snd temp = []"
    and "score nodes p_before temp = Inr (length1, length2, p_after, p_eff)"
  shows "select criterion parameter st key1 key2 temp length1 length2 p_eff =
           (if (criterion = ''power'' \<or> criterion = ''size'') \<and> parameter \<noteq> ''max''
                 \<and> py_int_str parameter = None
            then Inl ValueError else Inr st)"
proof -
  have "length1 = 0 \<or> length2 = 0"
    using assms by (auto simp: score_def Let_def float_of_int_def fl_def split: if_splits)
  then show ?thesis
    by (auto simp: select_def select_power_def select_size_def split: option.splits)
qed



section \<open>Criterion "power", parameter "max"\<close>

lemma score_cand:
  assumes "number_of_nodes G \<noteq> 0"
  shows "score (number_of_nodes G) (int (number_of_nodes G) * int (number_of_nodes G))
           (grow_candidate G ex origin)
         = Inr (cand_length1 G ex origin, cand_length2 G ex origin,
                p_after_of (number_of_nodes G) (cand_length1 G ex origin) (cand_length2 G ex origin),
                cand_power G ex origin)"
  using assms by (simp add: score_def Let_def cand_length1_def cand_length2_def cand_power_def)

lemma loop_body_power_max:
  assumes "number_of_nodes G \<noteq> 0"
  shows "loop_body G ''power'' ''max'' ex (number_of_nodes G)
           (int (number_of_nodes G) * int (number_of_nodes G)) st origin
         = Inr (if p_eff_max st < cand_power G ex origin \<and> cand_valid G ex origin
                then \<lparr>p_eff_max = cand_power G ex origin,
                      max_len1 = cand_length1 G ex origin,
                      max_len2 = cand_length2 G ex origin,
                      info_cluster = power_max_record G ex origin,
                      cluster = grow_candidate G ex origin\<rparr>
                else st)"
  using cand_lengths_nonzero[of G ex origin]
  by (auto simp: loop_body_def Let_def score_cand[OF assms] select_def select_power_def
      power_max_record_def)

lemma power_max_stay:
  assumes "number_of_nodes G \<noteq> 0"
  shows "(\<forall>c \<in> set cs. cand_valid G ex c \<longrightarrow> cand_power G ex c \<le> p_eff_max st) \<Longrightarrow>
         search_loop G ''power'' ''max'' ex (number_of_nodes G)
           (int (number_of_nodes G) * int (number_of_nodes G)) st cs = Inr st"
  by (induction cs) (auto simp: loop_body_power_max[OF assms])

lemma power_max_pick:
  assumes "number_of_nodes G \<noteq> 0"
  shows "i < length cs \<Longrightarrow> cand_valid G ex (cs ! i) \<Longrightarrow> p_eff_max st < cand_power G ex (cs ! i) \<Longrightarrow>
         (\<forall>j < length cs. cand_valid G ex (cs ! j) \<longrightarrow> cand_power G ex (cs ! j) \<le> cand_power G ex (cs ! i)) \<Longrightarrow>
         (\<forall>j < i. cand_valid G ex (cs ! j) \<longrightarrow> cand_power G ex (cs ! j) < cand_power G ex (cs ! i)) \<Longrightarrow>
         search_loop G ''power'' ''max'' ex (number_of_nodes G)
           (int (number_of_nodes G) * int (number_of_nodes G)) st cs
         = Inr \<lparr>p_eff_max = cand_power G ex (cs ! i),
                max_len1 = cand_length1 G ex (cs ! i),
                max_len2 = cand_length2 G ex (cs ! i),
                info_cluster = power_max_record G ex (cs ! i),
                cluster = grow_candidate G ex (cs ! i)\<rparr>"
proof (induction cs arbitrary: i st)
  case Nil
  then show ?case by simp
next
  case (Cons c rest)
  let ?P = "cand_power G ex" and ?V = "cand_valid G ex"
  show ?case
  proof (cases i)
    case 0
    let ?st1 = "\<lparr>p_eff_max = ?P c, max_len1 = cand_length1 G ex c, max_len2 = cand_length2 G ex c,
                  info_cluster = power_max_record G ex c, cluster = grow_candidate G ex c\<rparr>"
    have body: "loop_body G ''power'' ''max'' ex (number_of_nodes G)
                  (int (number_of_nodes G) * int (number_of_nodes G)) st c = Inr ?st1"
      using Cons.prems(2,3) 0 by (simp add: loop_body_power_max[OF assms])
    have "\<forall>c' \<in> set rest. ?V c' \<longrightarrow> ?P c' \<le> p_eff_max ?st1"
    proof (intro ballI impI)
      fix c' assume "c' \<in> set rest" "?V c'"
      then obtain k where k: "k < length rest" "rest ! k = c'"
        by (auto simp: in_set_conv_nth)
      then show "?P c' \<le> p_eff_max ?st1"
        using Cons.prems(4)[rule_format, of "Suc k"] \<open>?V c'\<close> 0 by simp
    qed
    then have "search_loop G ''power'' ''max'' ex (number_of_nodes G)
                 (int (number_of_nodes G) * int (number_of_nodes G)) ?st1 rest = Inr ?st1"
      by (rule power_max_stay[OF assms])
    then show ?thesis using body 0 by simp
  next
    case (Suc i')
    let ?st1 = "if p_eff_max st < ?P c \<and> ?V c
                then \<lparr>p_eff_max = ?P c, max_len1 = cand_length1 G ex c,
                       max_len2 = cand_length2 G ex c,
                       info_cluster = power_max_record G ex c, cluster = grow_candidate G ex c\<rparr>
                else st"
    have body: "loop_body G ''power'' ''max'' ex (number_of_nodes G)
                  (int (number_of_nodes G) * int (number_of_nodes G)) st c = Inr ?st1"
      by (rule loop_body_power_max[OF assms])
    have i': "i' < length rest" using Cons.prems(1) Suc by simp
    have v: "?V (rest ! i')" using Cons.prems(2) Suc by simp
    have first: "?V c \<longrightarrow> ?P c < ?P (rest ! i')"
      using Cons.prems(5) Suc by auto
    have lt: "p_eff_max ?st1 < ?P (rest ! i')"
      using Cons.prems(3) Suc first by simp
    have le: "\<forall>j < length rest. ?V (rest ! j) \<longrightarrow> ?P (rest ! j) \<le> ?P (rest ! i')"
    proof (intro allI impI)
      fix j assume "j < length rest" "?V (rest ! j)"
      then show "?P (rest ! j) \<le> ?P (rest ! i')"
        using Cons.prems(4)[rule_format, of "Suc j"] Suc by simp
    qed
    have less: "\<forall>j < i'. ?V (rest ! j) \<longrightarrow> ?P (rest ! j) < ?P (rest ! i')"
    proof (intro allI impI)
      fix j assume "j < i'" "?V (rest ! j)"
      then show "?P (rest ! j) < ?P (rest ! i')"
        using Cons.prems(5)[rule_format, of "Suc j"] Suc by simp
    qed
    have "search_loop G ''power'' ''max'' ex (number_of_nodes G)
            (int (number_of_nodes G) * int (number_of_nodes G)) ?st1 rest
          = Inr \<lparr>p_eff_max = ?P (rest ! i'), max_len1 = cand_length1 G ex (rest ! i'),
                 max_len2 = cand_length2 G ex (rest ! i'),
                 info_cluster = power_max_record G ex (rest ! i'),
                 cluster = grow_candidate G ex (rest ! i')\<rparr>"
      by (rule Cons.IH[OF i' v lt le less])
    then show ?thesis using body Suc by simp
  qed
qed

text \<open>
  C8: with criterion \<open>"power"\<close> and parameter \<open>"max"\<close>, the candidate retained is the
  one of largest power saving among the candidates with \<open>r \<noteq> 0\<close> and \<open>b \<noteq> 0\<close>, and of
  several candidates with that power saving the first in the order of \<open>create_table\<close>.
  Let \<open>i\<close> be the position of a candidate with both clusters non-empty whose power saving
  is not exceeded by any such candidate and is strictly above that of every such
  candidate before it.  Then \<open>find_clusters\<close> returns the clusters of candidate \<open>i\<close>
  and its record, and nothing else.  The graph is taken to be well formed and to have
  fewer than \<open>2\<^sup>2\<^sup>4\<close> nodes, which keeps the float computation of the power saving of a
  valid candidate above the initial maximum 0.0.
\<close>

theorem power_max_retains_first_maximum:
  assumes "wf_graph G" and "length (node_list G) < 2 ^ 24"
    and "i < length (create_table G)"
    and "cand_valid G ex (create_table G ! i)"
    and "\<forall>j < length (create_table G). cand_valid G ex (create_table G ! j) \<longrightarrow>
           cand_power G ex (create_table G ! j) \<le> cand_power G ex (create_table G ! i)"
    and "\<forall>j < i. cand_valid G ex (create_table G ! j) \<longrightarrow>
           cand_power G ex (create_table G ! j) < cand_power G ex (create_table G ! i)"
  shows "find_clusters G ''power'' ''max'' ex
           = Inr (grow_candidate G ex (create_table G ! i),
                  power_max_record G ex (create_table G ! i))"
proof -
  have mem: "create_table G ! i \<in> set (create_table G)"
    using assms(3) by simp
  then have "create_table G \<noteq> []" by auto
  then have n: "number_of_nodes G \<noteq> 0" by (rule create_table_nonempty)
  have pos: "p_eff_max initial_search < cand_power G ex (create_table G ! i)"
    using cand_facts(4)[OF assms(1,2) mem assms(4)] by (simp add: initial_search_def)
  show ?thesis
    using power_max_pick[OF n assms(3,4) pos assms(5,6)]
    by (simp add: find_clusters_def Let_def)
qed

lemma isolated3_table: "create_table isolated3 = [(1, 2), (1, 3), (2, 3)]"
  by (simp add: eval_defs isolated3_def)

lemma isolated3_grow:
  "grow_candidate isolated3 False (1, 2) = ([1], [2])"
  "grow_candidate isolated3 False (1, 3) = ([1], [3])"
  "grow_candidate isolated3 False (2, 3) = ([2], [3])"
  by (simp_all add: grow_candidate_def eval_defs isolated3_def del: scan_row.simps)

lemma isolated3_power:
  "cand_power isolated3 False (1, 3) = cand_power isolated3 False (1, 2)"
  "cand_power isolated3 False (2, 3) = cand_power isolated3 False (1, 2)"
  by (simp_all add: cand_power_def cand_length1_def cand_length2_def isolated3_grow
      del: One_nat_def)

theorem power_max_retains_first_maximum_witness:
  "wf_graph isolated3 \<and> create_table isolated3 = [(1, 2), (1, 3), (2, 3)] \<and>
   cand_power isolated3 False (1, 3) = cand_power isolated3 False (1, 2) \<and>
   cand_power isolated3 False (2, 3) = cand_power isolated3 False (1, 2) \<and>
   find_clusters isolated3 ''power'' ''max'' False
     = Inr (([1], [2]), power_max_record isolated3 False (1, 2))"
proof -
  have h1: "wf_graph isolated3" by (simp add: wf_graph_def isolated3_def)
  have h2: "length (node_list isolated3) < 2 ^ 24" by (simp add: isolated3_def)
  have h3: "0 < length (create_table isolated3)" by (simp add: isolated3_table)
  have h4: "cand_valid isolated3 False (create_table isolated3 ! 0)"
    by (simp add: isolated3_table cand_valid_def isolated3_grow del: One_nat_def)
  have h5: "\<forall>j < length (create_table isolated3).
              cand_valid isolated3 False (create_table isolated3 ! j) \<longrightarrow>
              cand_power isolated3 False (create_table isolated3 ! j)
                \<le> cand_power isolated3 False (create_table isolated3 ! 0)"
    by (auto simp: isolated3_table isolated3_power less_Suc_eq simp del: One_nat_def)
  have h6: "\<forall>j < 0. cand_valid isolated3 False (create_table isolated3 ! j) \<longrightarrow>
              cand_power isolated3 False (create_table isolated3 ! j)
                < cand_power isolated3 False (create_table isolated3 ! 0)"
    by simp
  show ?thesis
    using power_max_retains_first_maximum[OF h1 h2 h3 h4 h5 h6] h1
    by (simp add: isolated3_table isolated3_power isolated3_grow del: One_nat_def)
qed

section \<open>Criterion "size" with a threshold\<close>

lemma distinct_table_rows: "distinct xs \<Longrightarrow> distinct (table_rows G xs)"
proof (induction xs)
  case Nil
  then show ?case by simp
next
  case (Cons key rest)
  have "distinct (map (\<lambda>y. (key, y))
          (filter (\<lambda>y. y \<notin> set (successors G key) \<and> y \<notin> set (predecessors G key)) rest))"
    using Cons.prems by (simp add: distinct_map inj_on_def)
  moreover have "distinct (table_rows G rest)"
    using Cons by simp
  moreover have "(key, y) \<notin> set (table_rows G rest)" for y
    using table_rows_in[of "(key, y)" G rest] Cons.prems by auto
  ultimately show ?case by auto
qed

lemma distinct_create_table: "wf_graph G \<Longrightarrow> distinct (create_table G)"
  by (simp add: create_table_def wf_graph_def distinct_table_rows)

lemma loop_body_size_threshold:
  assumes "wf_graph G" "length (node_list G) < 2 ^ 24" "py_int_str parameter = Some N"
    and "origin \<in> set (create_table G)"
  shows "loop_body G ''size'' parameter ex (number_of_nodes G)
           (int (number_of_nodes G) * int (number_of_nodes G)) st origin
         = Inr (if size_qualifies G ex N origin
                then (if p_eff_max st < cand_power G ex origin
                      then st\<lparr>info_cluster := info_cluster st @ [size_record G ex origin],
                              p_eff_max := cand_power G ex origin,
                              cluster := grow_candidate G ex origin\<rparr>
                      else st\<lparr>info_cluster := info_cluster st @ [size_record G ex origin]\<rparr>)
                else st)"
proof -
  have "create_table G \<noteq> []" using assms(4) by auto
  then have n: "number_of_nodes G \<noteq> 0" by (rule create_table_nonempty)
  have pm: "parameter \<noteq> ''max''" by (rule py_int_str_not_max[OF assms(3)])
  have sz: "fadd (cand_length1 G ex origin) (cand_length2 G ex origin)
              = of_int (int (cand_size G ex origin))"
    using cand_facts(3)[OF assms(1,2,4), of ex] by simp
  have q: "of_int N < fadd (cand_length1 G ex origin) (cand_length2 G ex origin)
             \<and> cand_length1 G ex origin \<noteq> 0 \<and> cand_length2 G ex origin \<noteq> 0
           \<longleftrightarrow> size_qualifies G ex N origin"
    unfolding sz of_int_less_iff size_qualifies_def
    using cand_lengths_nonzero[of G ex origin] by blast
  show ?thesis
  proof (cases "size_qualifies G ex N origin")
    case True
    then have t: "of_int N < fadd (cand_length1 G ex origin) (cand_length2 G ex origin)"
      "cand_length1 G ex origin \<noteq> 0" "cand_length2 G ex origin \<noteq> 0"
      using q by simp_all
    show ?thesis
      using True t pm
      by (simp add: loop_body_def Let_def score_cand[OF n] select_def select_size_def assms(3)
          size_record_def)
  next
    case False
    then have f: "\<not> (of_int N < fadd (cand_length1 G ex origin) (cand_length2 G ex origin)
             \<and> cand_length1 G ex origin \<noteq> 0 \<and> cand_length2 G ex origin \<noteq> 0)"
      using q by simp
    show ?thesis
      using False f pm
      by (auto simp: loop_body_def Let_def score_cand[OF n] select_def select_size_def assms(3))
  qed
qed

lemma size_threshold_runs:
  assumes "wf_graph G" "length (node_list G) < 2 ^ 24" "py_int_str parameter = Some N"
  shows "set cs \<subseteq> set (create_table G) \<Longrightarrow>
         \<exists>st'. search_loop G ''size'' parameter ex (number_of_nodes G)
                 (int (number_of_nodes G) * int (number_of_nodes G)) st cs = Inr st' \<and>
               info_cluster st'
                 = info_cluster st @ map (size_record G ex) (filter (size_qualifies G ex N) cs)"
proof (induction cs arbitrary: st)
  case Nil
  then show ?case by simp
next
  case (Cons c rest)
  have c: "c \<in> set (create_table G)" and r: "set rest \<subseteq> set (create_table G)"
    using Cons.prems by simp_all
  obtain st1 where b: "loop_body G ''size'' parameter ex (number_of_nodes G)
           (int (number_of_nodes G) * int (number_of_nodes G)) st c = Inr st1"
    and i1: "info_cluster st1
               = info_cluster st @ map (size_record G ex) (filter (size_qualifies G ex N) [c])"
    by (simp add: loop_body_size_threshold[OF assms c])
  obtain st' where "search_loop G ''size'' parameter ex (number_of_nodes G)
                 (int (number_of_nodes G) * int (number_of_nodes G)) st1 rest = Inr st'"
    and "info_cluster st'
           = info_cluster st1 @ map (size_record G ex) (filter (size_qualifies G ex N) rest)"
    using Cons.IH[OF r, of st1] by blast
  then show ?case using b i1 by simp
qed

lemma size_threshold_stay:
  assumes "wf_graph G" "length (node_list G) < 2 ^ 24" "py_int_str parameter = Some N"
  shows "set cs \<subseteq> set (create_table G) \<Longrightarrow>
         (\<forall>c \<in> set cs. size_qualifies G ex N c \<longrightarrow> cand_power G ex c \<le> p_eff_max st) \<Longrightarrow>
         search_loop G ''size'' parameter ex (number_of_nodes G)
           (int (number_of_nodes G) * int (number_of_nodes G)) st cs = Inr st' \<Longrightarrow>
         cluster st' = cluster st \<and> p_eff_max st' = p_eff_max st"
proof (induction cs arbitrary: st)
  case Nil
  then show ?case by simp
next
  case (Cons c rest)
  have c: "c \<in> set (create_table G)" and r: "set rest \<subseteq> set (create_table G)"
    using Cons.prems(1) by simp_all
  let ?st1 = "if size_qualifies G ex N c
              then st\<lparr>info_cluster := info_cluster st @ [size_record G ex c]\<rparr> else st"
  have b: "loop_body G ''size'' parameter ex (number_of_nodes G)
           (int (number_of_nodes G) * int (number_of_nodes G)) st c = Inr ?st1"
    using Cons.prems(2) by (auto simp: loop_body_size_threshold[OF assms c])
  have run: "search_loop G ''size'' parameter ex (number_of_nodes G)
           (int (number_of_nodes G) * int (number_of_nodes G)) ?st1 rest = Inr st'"
    using Cons.prems(3) b by simp
  have le: "\<forall>c \<in> set rest. size_qualifies G ex N c \<longrightarrow> cand_power G ex c \<le> p_eff_max ?st1"
    using Cons.prems(2) by simp
  show ?case
    using Cons.IH[OF r le run] by simp
qed

lemma size_threshold_pick:
  assumes "wf_graph G" "length (node_list G) < 2 ^ 24" "py_int_str parameter = Some N"
  shows "set cs \<subseteq> set (create_table G) \<Longrightarrow> i < length cs \<Longrightarrow>
         size_qualifies G ex N (cs ! i) \<Longrightarrow> p_eff_max st < cand_power G ex (cs ! i) \<Longrightarrow>
         (\<forall>j < length cs. size_qualifies G ex N (cs ! j) \<longrightarrow>
            cand_power G ex (cs ! j) \<le> cand_power G ex (cs ! i)) \<Longrightarrow>
         (\<forall>j < i. size_qualifies G ex N (cs ! j) \<longrightarrow>
            cand_power G ex (cs ! j) < cand_power G ex (cs ! i)) \<Longrightarrow>
         search_loop G ''size'' parameter ex (number_of_nodes G)
           (int (number_of_nodes G) * int (number_of_nodes G)) st cs = Inr st' \<Longrightarrow>
         cluster st' = grow_candidate G ex (cs ! i)"
proof (induction cs arbitrary: i st)
  case Nil
  then show ?case by simp
next
  case (Cons c rest)
  let ?P = "cand_power G ex" and ?Q = "size_qualifies G ex N"
  have c: "c \<in> set (create_table G)" and r: "set rest \<subseteq> set (create_table G)"
    using Cons.prems(1) by simp_all
  show ?case
  proof (cases i)
    case 0
    let ?st1 = "st\<lparr>info_cluster := info_cluster st @ [size_record G ex c],
                    p_eff_max := ?P c, cluster := grow_candidate G ex c\<rparr>"
    have b: "loop_body G ''size'' parameter ex (number_of_nodes G)
           (int (number_of_nodes G) * int (number_of_nodes G)) st c = Inr ?st1"
      using Cons.prems(3,4) 0 by (simp add: loop_body_size_threshold[OF assms c])
    have run: "search_loop G ''size'' parameter ex (number_of_nodes G)
           (int (number_of_nodes G) * int (number_of_nodes G)) ?st1 rest = Inr st'"
      using Cons.prems(7) b by simp
    have le: "\<forall>c' \<in> set rest. ?Q c' \<longrightarrow> ?P c' \<le> p_eff_max ?st1"
    proof (intro ballI impI)
      fix c' assume "c' \<in> set rest" "?Q c'"
      then obtain k where k: "k < length rest" "rest ! k = c'"
        by (auto simp: in_set_conv_nth)
      then show "?P c' \<le> p_eff_max ?st1"
        using Cons.prems(5)[rule_format, of "Suc k"] \<open>?Q c'\<close> 0 by simp
    qed
    show ?thesis
      using size_threshold_stay[OF assms r le run] 0 by simp
  next
    case (Suc i')
    let ?st1 = "if ?Q c
                then (if p_eff_max st < ?P c
                      then st\<lparr>info_cluster := info_cluster st @ [size_record G ex c],
                              p_eff_max := ?P c, cluster := grow_candidate G ex c\<rparr>
                      else st\<lparr>info_cluster := info_cluster st @ [size_record G ex c]\<rparr>)
                else st"
    have b: "loop_body G ''size'' parameter ex (number_of_nodes G)
           (int (number_of_nodes G) * int (number_of_nodes G)) st c = Inr ?st1"
      by (rule loop_body_size_threshold[OF assms c])
    have run: "search_loop G ''size'' parameter ex (number_of_nodes G)
           (int (number_of_nodes G) * int (number_of_nodes G)) ?st1 rest = Inr st'"
      using Cons.prems(7) b by simp
    have i': "i' < length rest" using Cons.prems(2) Suc by simp
    have v: "?Q (rest ! i')" using Cons.prems(3) Suc by simp
    have first: "?Q c \<longrightarrow> ?P c < ?P (rest ! i')"
      using Cons.prems(6) Suc by auto
    have lt: "p_eff_max ?st1 < ?P (rest ! i')"
      using Cons.prems(4) Suc first by simp
    have le: "\<forall>j < length rest. ?Q (rest ! j) \<longrightarrow> ?P (rest ! j) \<le> ?P (rest ! i')"
    proof (intro allI impI)
      fix j assume "j < length rest" "?Q (rest ! j)"
      then show "?P (rest ! j) \<le> ?P (rest ! i')"
        using Cons.prems(5)[rule_format, of "Suc j"] Suc by simp
    qed
    have less: "\<forall>j < i'. ?Q (rest ! j) \<longrightarrow> ?P (rest ! j) < ?P (rest ! i')"
    proof (intro allI impI)
      fix j assume "j < i'" "?Q (rest ! j)"
      then show "?P (rest ! j) < ?P (rest ! i')"
        using Cons.prems(6)[rule_format, of "Suc j"] Suc by simp
    qed
    show ?thesis
      using Cons.IH[OF r i' v lt le less run] Suc by simp
  qed
qed

text \<open>
  C9: with criterion \<open>"size"\<close> and a parameter that \<open>int()\<close> reads as \<open>N\<close>, the
  qualifying collection holds one record for every candidate with \<open>r + b > N\<close> and
  \<open>r\<close>, \<open>b\<close> not zero, in the order of the candidates, which are pairwise different,
  and nothing else; the cluster pair returned is that of the qualifier with the largest
  power saving, the first of them where several have it, and the empty pair when no
  candidate qualifies.  The graph is taken to be well formed and to have fewer than
  \<open>2\<^sup>2\<^sup>4\<close> nodes, as for C8.
\<close>

theorem size_threshold_collects_every_qualifier:
  assumes "wf_graph G" and "length (node_list G) < 2 ^ 24"
    and "py_int_str parameter = Some N"
  shows "distinct (create_table G) \<and>
         (\<exists>cl. find_clusters G ''size'' parameter ex
                  = Inr (cl, map (size_record G ex)
                               (filter (size_qualifies G ex N) (create_table G))) \<and>
           ((\<forall>c \<in> set (create_table G). \<not> size_qualifies G ex N c) \<longrightarrow> cl = ([], [])) \<and>
           (\<forall>i < length (create_table G).
              size_qualifies G ex N (create_table G ! i) \<and>
              (\<forall>j < length (create_table G). size_qualifies G ex N (create_table G ! j) \<longrightarrow>
                 cand_power G ex (create_table G ! j) \<le> cand_power G ex (create_table G ! i)) \<and>
              (\<forall>j < i. size_qualifies G ex N (create_table G ! j) \<longrightarrow>
                 cand_power G ex (create_table G ! j) < cand_power G ex (create_table G ! i))
              \<longrightarrow> cl = grow_candidate G ex (create_table G ! i)))"
proof -
  let ?cs = "create_table G"
  obtain st' where run: "search_loop G ''size'' parameter ex (number_of_nodes G)
                 (int (number_of_nodes G) * int (number_of_nodes G)) initial_search ?cs = Inr st'"
    and info: "info_cluster st' = map (size_record G ex) (filter (size_qualifies G ex N) ?cs)"
    using size_threshold_runs[OF assms, of ?cs ex initial_search]
    by (auto simp: initial_search_def)
  have res: "find_clusters G ''size'' parameter ex
               = Inr (cluster st', map (size_record G ex) (filter (size_qualifies G ex N) ?cs))"
    using run info by (simp add: find_clusters_def Let_def)
  have none: "cluster st' = ([], [])" if "\<forall>c \<in> set ?cs. \<not> size_qualifies G ex N c"
    using size_threshold_stay[OF assms subset_refl _ run] that
    by (simp add: initial_search_def)
  have best: "cluster st' = grow_candidate G ex (?cs ! i)"
    if i: "i < length ?cs" and q: "size_qualifies G ex N (?cs ! i)"
      and le: "\<forall>j < length ?cs. size_qualifies G ex N (?cs ! j) \<longrightarrow>
                 cand_power G ex (?cs ! j) \<le> cand_power G ex (?cs ! i)"
      and less: "\<forall>j < i. size_qualifies G ex N (?cs ! j) \<longrightarrow>
                 cand_power G ex (?cs ! j) < cand_power G ex (?cs ! i)" for i
  proof -
    have mem: "?cs ! i \<in> set ?cs" using i by simp
    have "cand_valid G ex (?cs ! i)" using q by (simp add: size_qualifies_def)
    then have pos: "p_eff_max initial_search < cand_power G ex (?cs ! i)"
      using cand_facts(4)[OF assms(1,2) mem] by (simp add: initial_search_def)
    show ?thesis
      by (rule size_threshold_pick[OF assms subset_refl i q pos le less run])
  qed
  show ?thesis
    using distinct_create_table[OF assms(1)] res none best by blast
qed

lemma isolated3_qualifies:
  "size_qualifies isolated3 False 1 (1, 2)"
  "size_qualifies isolated3 False 1 (1, 3)"
  "size_qualifies isolated3 False 1 (2, 3)"
  by (simp_all add: size_qualifies_def cand_size_def cand_valid_def isolated3_grow
      del: One_nat_def)

theorem size_threshold_collects_every_qualifier_witness:
  "wf_graph isolated3 \<and> length (node_list isolated3) < 2 ^ 24 \<and> py_int_str ''1'' = Some 1 \<and>
   create_table isolated3 = [(1, 2), (1, 3), (2, 3)] \<and>
   find_clusters isolated3 ''size'' ''1'' False
     = Inr (([1], [2]),
            [size_record isolated3 False (1, 2), size_record isolated3 False (1, 3),
             size_record isolated3 False (2, 3)])"
proof -
  have h1: "wf_graph isolated3" by (simp add: wf_graph_def isolated3_def)
  have h2: "length (node_list isolated3) < 2 ^ 24" by (simp add: isolated3_def)
  have h3: "py_int_str ''1'' = Some 1" by (simp add: py_int_eval)
  let ?cs = "create_table isolated3"
  obtain cl where res: "find_clusters isolated3 ''size'' ''1'' False
                  = Inr (cl, map (size_record isolated3 False)
                               (filter (size_qualifies isolated3 False 1) ?cs))"
    and best: "\<forall>i < length ?cs.
              size_qualifies isolated3 False 1 (?cs ! i) \<and>
              (\<forall>j < length ?cs. size_qualifies isolated3 False 1 (?cs ! j) \<longrightarrow>
                 cand_power isolated3 False (?cs ! j) \<le> cand_power isolated3 False (?cs ! i)) \<and>
              (\<forall>j < i. size_qualifies isolated3 False 1 (?cs ! j) \<longrightarrow>
                 cand_power isolated3 False (?cs ! j) < cand_power isolated3 False (?cs ! i))
              \<longrightarrow> cl = grow_candidate isolated3 False (?cs ! i)"
    using size_threshold_collects_every_qualifier[OF h1 h2 h3, of False] by blast
  have le: "\<forall>j < length ?cs. size_qualifies isolated3 False 1 (?cs ! j) \<longrightarrow>
              cand_power isolated3 False (?cs ! j) \<le> cand_power isolated3 False (?cs ! 0)"
    by (auto simp: isolated3_table isolated3_power less_Suc_eq simp del: One_nat_def)
  have "cl = grow_candidate isolated3 False (?cs ! 0)"
    using best[rule_format, of 0] le
    by (simp add: isolated3_table isolated3_qualifies del: One_nat_def)
  then have cl: "cl = ([1], [2])"
    by (simp add: isolated3_table isolated3_grow del: One_nat_def)
  show ?thesis
    using res h1 h2 h3 cl
    by (simp add: isolated3_table isolated3_qualifies del: One_nat_def)
qed

end
